theory Spec2Isabelle
  imports Main "HOL-Library.AList" "HOL-Library.Sublist" "HOL-Library.Multiset"
begin

section \<open>Cross-file import analysis (\<open>remove_unused_imports/_cross_file.py\<close>)\<close>

subsection \<open>Data model\<close>

text \<open>
  A \<open>Path\<close> is identified with its string. The value types below are declared in
  \<open>_data.py\<close> and \<open>_graph.py\<close>, which are not among the sources at hand; each record
  carries the fields that \<open>_cross_file.py\<close> reads, typed by the way they are used there.
\<close>

type_synonym path = string

text \<open>
  Modelled from the spec: \<open>ImportInfo\<close> (the spec's ImportBinding). The analyzer reads only
  \<open>imp.name\<close>, the name bound in the file; the other fields tell apart two bindings of
  one name.
\<close>

record ImportInfo =
  name :: string
  source_module :: string
  imported_attr :: "string option"
  level :: nat
  position :: "nat \<times> nat"

text \<open>
  Modelled from the spec: \<open>ModuleInfo\<close>. The field \<open>imports\<close> is called \<open>mod_imports\<close>
  here. \<open>exports\<close> is typed by its use in the source: it is read once, with the comment
  \<open>Names in __all__\<close>, and tested by \<open>name not in exports\<close> with no test for \<open>None\<close>
  before it (where a value may be missing, as \<open>edge.imported\<close>, the source tests for
  \<open>None\<close>). So it is a set of names, the names listed in \<open>__all__\<close>; a module
  that lists no name there, whether its \<open>__all__\<close> is empty or it has none, holds the
  empty set, and the analyzer has nothing else to tell the two apart.
\<close>

record ModuleInfo =
  mod_imports :: "ImportInfo list"
  defined_names :: "string set"
  exports :: "string set"

text \<open>
  Modelled from the spec: \<open>ImportEdge\<close>. \<open>imported\<close> is \<open>None\<close> for an external
  module; the field \<open>module_name\<close> is called \<open>mod_name\<close> here.
\<close>

record ImportEdge =
  importer :: path
  imported :: "path option"
  mod_name :: string
  names :: "string set"
  is_external :: bool

text \<open>
  Modelled from the spec: \<open>ImportGraph\<close>. \<open>nodes\<close> is a dict, iterated in insertion order
  and read by key: an association list read with \<open>map_of\<close>. \<open>edges\<close> is a list.
\<close>

record ImportGraph =
  nodes :: "(path \<times> ModuleInfo) list"
  edges :: "ImportEdge list"

text \<open>
  Modelled from the spec: \<open>ImplicitReexport\<close>, with the three fields the analyzer fills.
\<close>

record ImplicitReexport =
  source_file :: path
  import_name :: string
  used_by :: "path set"

text \<open>
  \<open>CrossFileResult\<close>. The two dicts are compared without regard to the order of their
  keys: they are maps.
\<close>

record CrossFileResult =
  unused_imports :: "path \<rightharpoonup> ImportInfo list"
  implicit_reexports :: "ImplicitReexport list"
  external_usage :: "string \<rightharpoonup> path set"
  circular_imports :: "path list list"

text \<open>The two exceptions that \<open>_get_single_file_unused\<close> catches around \<open>read_text\<close>.\<close>

datatype read_error = OSError | UnicodeDecodeError

subsection \<open>Dictionaries of sets\<close>

text \<open>\<open>d.get(k, set())\<close>: the set stored under \<open>k\<close>, the empty set for a missing key.\<close>

definition get_or_empty :: "('k \<rightharpoonup> 'v set) \<Rightarrow> 'k \<Rightarrow> 'v set" where
  "get_or_empty d k = (case d k of None \<Rightarrow> {} | Some s \<Rightarrow> s)"

text \<open>\<open>d.get(k, [])\<close> on a dict of lists.\<close>

definition get_or_nil :: "('k \<rightharpoonup> 'v list) \<Rightarrow> 'k \<Rightarrow> 'v list" where
  "get_or_nil d k = (case d k of None \<Rightarrow> [] | Some l \<Rightarrow> l)"

text \<open>
  \<open>d[k]\<close> on a \<open>defaultdict(set)\<close>: reading a missing key stores the empty set under it.
\<close>

definition dd_index :: "('k \<rightharpoonup> 'v set) \<Rightarrow> 'k \<Rightarrow> ('k \<rightharpoonup> 'v set)" where
  "dd_index d k = (case d k of None \<Rightarrow> d(k \<mapsto> {}) | Some s \<Rightarrow> d)"

text \<open>
  \<open>d[k].add(x)\<close> for each \<open>x\<close> of \<open>xs\<close> on a \<open>defaultdict(set)\<close> whose key order is kept
  (an association list): an existing key keeps its place, a new key goes to the end.
\<close>

definition dd_add_all :: "'k \<Rightarrow> 'v set \<Rightarrow> ('k \<times> 'v set) list \<Rightarrow> ('k \<times> 'v set) list" where
  "dd_add_all k xs d = AList.update k (get_or_empty (map_of d) k \<union> xs) d"

subsection \<open>Step 1: single-file analysis of every node\<close>

text \<open>
  \<open>_get_single_file_unused\<close>. The file system is the parameter \<open>read_text\<close> (the text of
  a file, or the exception raised), and \<open>find_unused_imports\<close> of \<open>_detection.py\<close> is a
  parameter too, taken as a total function: what it may raise lies outside the sources at
  hand. A file that cannot be read is skipped; a file with nothing flagged gets no key.
\<close>

fun single_file_unused_loop ::
  "(path \<Rightarrow> read_error + string) \<Rightarrow> (string \<Rightarrow> ImportInfo list) \<Rightarrow>
   (path \<times> ModuleInfo) list \<Rightarrow> (path \<times> ImportInfo list) list \<Rightarrow> (path \<times> ImportInfo list) list"
where
  "single_file_unused_loop read_text find_unused_imports [] result = result"
| "single_file_unused_loop read_text find_unused_imports ((file_path, module_info) # rest) result =
     (case read_text file_path of
        Inl err \<Rightarrow> single_file_unused_loop read_text find_unused_imports rest result
      | Inr source \<Rightarrow>
          (let unused = find_unused_imports source in
           if unused \<noteq> []
           then single_file_unused_loop read_text find_unused_imports rest
                  (AList.update file_path unused result)
           else single_file_unused_loop read_text find_unused_imports rest result))"

definition get_single_file_unused ::
  "(path \<Rightarrow> read_error + string) \<Rightarrow> (string \<Rightarrow> ImportInfo list) \<Rightarrow> ImportGraph \<Rightarrow>
   (path \<times> ImportInfo list) list"
where
  "get_single_file_unused read_text find_unused_imports g =
     single_file_unused_loop read_text find_unused_imports (nodes g) []"

subsection \<open>Re-exported imports\<close>

text \<open>
  \<open>_find_reexported_imports\<close>, the loop over the edges. An edge that has no imported
  file or is marked external is skipped. The inner loop over \<open>active_names\<close> adds to
  \<open>reexported[imported_file]\<close> every active name that is an import of the target file and
  not defined there; the key is created by the first such name, so an edge without one
  leaves the dict as it is. The dict keeps the order in which its keys were created.
\<close>

fun find_reexported_loop ::
  "ImportGraph \<Rightarrow> (path \<rightharpoonup> string set) \<Rightarrow> ImportEdge list \<Rightarrow>
   (path \<times> string set) list \<Rightarrow> (path \<times> string set) list"
where
  "find_reexported_loop g removed [] reexported = reexported"
| "find_reexported_loop g removed (edge # rest) reexported =
     (case imported edge of
        None \<Rightarrow> find_reexported_loop g removed rest reexported
      | Some imported_file \<Rightarrow>
          if is_external edge then find_reexported_loop g removed rest reexported
          else
            (let imported_names = names edge;
                 importer_removed = get_or_empty removed (importer edge);
                 active_names = imported_names - importer_removed
             in if active_names = {} then find_reexported_loop g removed rest reexported
                else
                  (case map_of (nodes g) imported_file of
                     None \<Rightarrow> find_reexported_loop g removed rest reexported
                   | Some module_info \<Rightarrow>
                       (let import_names_in_file = name ` set (mod_imports module_info);
                            defined_in_file = defined_names module_info;
                            hits = {n \<in> active_names.
                                      n \<in> import_names_in_file \<and> n \<notin> defined_in_file}
                        in find_reexported_loop g removed rest
                             (if hits = {} then reexported
                              else dd_add_all imported_file hits reexported)))))"

text \<open>\<open>removed = removed_imports or {}\<close>: no argument, or an empty dict, is the empty dict.\<close>

definition find_reexported_imports ::
  "ImportGraph \<Rightarrow> (path \<rightharpoonup> string set) option \<Rightarrow> (path \<times> string set) list"
where
  "find_reexported_imports g removed_imports =
     find_reexported_loop g
       (case removed_imports of None \<Rightarrow> Map.empty | Some removed \<Rightarrow> removed)
       (edges g) []"

subsection \<open>Step 2: the cascade\<close>

text \<open>
  The loop over one file's flagged imports (the body of the \<open>for imp in unused\<close> loop),
  on the pair of \<open>all_removed\<close> and \<open>changed\<close>.
\<close>

fun mark_unused ::
  "path \<Rightarrow> string set \<Rightarrow> ImportInfo list \<Rightarrow> (path \<rightharpoonup> string set) \<times> bool \<Rightarrow>
   (path \<rightharpoonup> string set) \<times> bool"
where
  "mark_unused file_path reexported_names [] st = st"
| "mark_unused file_path reexported_names (imp # rest) (all_removed, changed) =
     (if name imp \<notin> reexported_names then
        (let all_removed1 = dd_index all_removed file_path in
         if name imp \<notin> get_or_empty all_removed1 file_path
         then mark_unused file_path reexported_names rest
                (all_removed1(file_path \<mapsto> insert (name imp) (get_or_empty all_removed1 file_path)),
                 True)
         else mark_unused file_path reexported_names rest (all_removed1, changed))
      else mark_unused file_path reexported_names rest (all_removed, changed))"

text \<open>The loop over \<open>single_file_unused.items()\<close>.\<close>

fun mark_files ::
  "(path \<times> string set) list \<Rightarrow> (path \<times> ImportInfo list) list \<Rightarrow>
   (path \<rightharpoonup> string set) \<times> bool \<Rightarrow> (path \<rightharpoonup> string set) \<times> bool"
where
  "mark_files reexported [] st = st"
| "mark_files reexported ((file_path, unused) # rest) st =
     mark_files reexported rest
       (mark_unused file_path (get_or_empty (map_of reexported) file_path) unused st)"

text \<open>One iteration of the \<open>while changed\<close> loop: the new \<open>all_removed\<close> and \<open>changed\<close>.\<close>

definition cascade_step ::
  "ImportGraph \<Rightarrow> (path \<times> ImportInfo list) list \<Rightarrow> (path \<rightharpoonup> string set) \<Rightarrow>
   (path \<rightharpoonup> string set) \<times> bool"
where
  "cascade_step g single_file_unused all_removed =
     mark_files (find_reexported_imports g (Some all_removed)) single_file_unused
       (all_removed, False)"

text \<open>
  The \<open>while changed\<close> loop, entered with \<open>changed = True\<close>: the body runs, and runs
  again as long as it has set \<open>changed\<close>. That the loop ends is proved further down, by
  the number of flagged bindings whose name is not yet removed.
\<close>

function cascade ::
  "ImportGraph \<Rightarrow> (path \<times> ImportInfo list) list \<Rightarrow> (path \<rightharpoonup> string set) \<Rightarrow>
   (path \<rightharpoonup> string set)"
where
  "cascade g single_file_unused all_removed =
     (if snd (cascade_step g single_file_unused all_removed)
      then cascade g single_file_unused (fst (cascade_step g single_file_unused all_removed))
      else fst (cascade_step g single_file_unused all_removed))"
  by pat_completeness auto

text \<open>The loop over \<open>all_removed.items()\<close> that fills \<open>result.unused_imports\<close>.\<close>

definition build_unused_imports ::
  "(path \<times> ImportInfo list) list \<Rightarrow> (path \<rightharpoonup> string set) \<Rightarrow> (path \<rightharpoonup> ImportInfo list)"
where
  "build_unused_imports single_file_unused all_removed =
     (\<lambda>file_path.
        case all_removed file_path of
          None \<Rightarrow> None
        | Some removed_names \<Rightarrow>
            (let unused_imports =
                   filter (\<lambda>imp. name imp \<in> removed_names)
                     (get_or_nil (map_of single_file_unused) file_path)
             in if unused_imports \<noteq> [] then Some unused_imports else None))"

subsection \<open>Step 3: implicit re-exports\<close>

text \<open>
  Modelled from the spec: \<open>ImportGraph.get_importers\<close> (\<open>importers_of(file)\<close>), the edges
  whose imported file is the given one.
\<close>

definition get_importers :: "ImportGraph \<Rightarrow> path \<Rightarrow> ImportEdge list" where
  "get_importers g file_path = filter (\<lambda>edge. imported edge = Some file_path) (edges g)"

text \<open>The inner loop over the importers: the files that import \<open>name\<close> from \<open>file_path\<close>.\<close>

definition collect_used_by :: "ImportGraph \<Rightarrow> path \<Rightarrow> string \<Rightarrow> path set" where
  "collect_used_by g file_path n =
     importer ` set (filter (\<lambda>edge. n \<in> names edge) (get_importers g file_path))"

text \<open>
  \<open>_find_implicit_reexports\<close>. Python does not fix the order in which a set of strings is
  iterated (it follows the hashes, seeded per process): \<open>iter_names\<close> is that order, the
  list a set is visited in.
\<close>

fun find_implicit_reexports ::
  "(string set \<Rightarrow> string list) \<Rightarrow> ImportGraph \<Rightarrow> (path \<times> string set) list \<Rightarrow>
   ImplicitReexport list"
where
  "find_implicit_reexports iter_names g [] = []"
| "find_implicit_reexports iter_names g ((file_path, reexported_names) # rest) =
     (case map_of (nodes g) file_path of
        None \<Rightarrow> find_implicit_reexports iter_names g rest
      | Some module_info \<Rightarrow>
          map (\<lambda>n. \<lparr>source_file = file_path, import_name = n,
                     used_by = collect_used_by g file_path n\<rparr>)
            (filter (\<lambda>n. n \<notin> exports module_info) (iter_names reexported_names))
          @ find_implicit_reexports iter_names g rest)"

subsection \<open>Step 4: external usage\<close>

fun aggregate_loop :: "ImportEdge list \<Rightarrow> (string \<rightharpoonup> path set) \<Rightarrow> (string \<rightharpoonup> path set)" where
  "aggregate_loop [] usage = usage"
| "aggregate_loop (edge # rest) usage =
     (if is_external edge
      then aggregate_loop rest
             ((dd_index usage (mod_name edge))
                (mod_name edge \<mapsto>
                   insert (importer edge) (get_or_empty (dd_index usage (mod_name edge))
                     (mod_name edge))))
      else aggregate_loop rest usage)"

definition aggregate_external_usage :: "ImportGraph \<Rightarrow> (string \<rightharpoonup> path set)" where
  "aggregate_external_usage g = aggregate_loop (edges g) Map.empty"

subsection \<open>The analysis\<close>

text \<open>
  \<open>CrossFileAnalyzer.analyze\<close>. \<open>find_cycles\<close> of the graph class (in \<open>_graph.py\<close>) is
  a parameter, as are the file system, \<open>find_unused_imports\<close> and the iteration order of
  sets of names.
\<close>

definition analyze ::
  "(string set \<Rightarrow> string list) \<Rightarrow> (path \<Rightarrow> read_error + string) \<Rightarrow>
   (string \<Rightarrow> ImportInfo list) \<Rightarrow> (ImportGraph \<Rightarrow> path list list) \<Rightarrow> ImportGraph \<Rightarrow>
   CrossFileResult"
where
  "analyze iter_names read_text find_unused_imports find_cycles g =
     (let single_file_unused = get_single_file_unused read_text find_unused_imports g;
          all_removed = cascade g single_file_unused Map.empty;
          final_reexported = find_reexported_imports g (Some all_removed)
      in \<lparr>unused_imports = build_unused_imports single_file_unused all_removed,
          implicit_reexports = find_implicit_reexports iter_names g final_reexported,
          external_usage = aggregate_external_usage g,
          circular_imports = find_cycles g\<rparr>)"

section \<open>Notions used to state the properties\<close>

text \<open>An iteration order visits every element of the set once.\<close>

definition iterates :: "('a set \<Rightarrow> 'a list) \<Rightarrow> 'a set \<Rightarrow> bool" where
  "iterates iter_names s \<longleftrightarrow> set (iter_names s) = s \<and> distinct (iter_names s)"

text \<open>\<open>Removed\<close> after \<open>k\<close> iterations of the loop body, from the empty dict.\<close>

fun removed_after ::
  "ImportGraph \<Rightarrow> (path \<times> ImportInfo list) list \<Rightarrow> nat \<Rightarrow> (path \<rightharpoonup> string set)"
where
  "removed_after g single_file_unused 0 = Map.empty"
| "removed_after g single_file_unused (Suc k) =
     fst (cascade_step g single_file_unused (removed_after g single_file_unused k))"

text \<open>The removal map with which the cascade loop of \<open>analyze\<close> ends.\<close>

definition final_removed ::
  "(path \<Rightarrow> read_error + string) \<Rightarrow> (string \<Rightarrow> ImportInfo list) \<Rightarrow> ImportGraph \<Rightarrow>
   (path \<rightharpoonup> string set)"
where
  "final_removed read_text find_unused_imports g =
     cascade g (get_single_file_unused read_text find_unused_imports g) Map.empty"

text \<open>
  The bindings that step 1 of \<open>analyze\<close> holds for a file:
  \<open>single_file_unused.get(f, [])\<close>.
\<close>

definition single_file_list ::
  "(path \<Rightarrow> read_error + string) \<Rightarrow> (string \<Rightarrow> ImportInfo list) \<Rightarrow> ImportGraph \<Rightarrow>
   path \<Rightarrow> ImportInfo list"
where
  "single_file_list read_text find_unused_imports g f =
     get_or_nil (map_of (get_single_file_unused read_text find_unused_imports g)) f"

text \<open>
  What one edge contributes to the re-exports of file \<open>f\<close> under a removal map: the names
  of a non-external edge into the node \<open>f\<close> that the importer has not removed, that are
  import bindings of \<open>f\<close> and are not defined in \<open>f\<close>.
\<close>

definition edge_reexports ::
  "ImportGraph \<Rightarrow> (path \<rightharpoonup> string set) \<Rightarrow> ImportEdge \<Rightarrow> path \<Rightarrow> string set"
where
  "edge_reexports g removed edge f =
     {n. \<not> is_external edge \<and> imported edge = Some f \<and> n \<in> names edge \<and>
         n \<notin> get_or_empty removed (importer edge) \<and>
         (\<exists>module_info. map_of (nodes g) f = Some module_info \<and>
            n \<in> name ` set (mod_imports module_info) \<and> n \<notin> defined_names module_info)}"

text \<open>The re-exports of \<open>f\<close> under a removal map, read off the returned dict.\<close>

definition reexported_names_of ::
  "ImportGraph \<Rightarrow> (path \<rightharpoonup> string set) \<Rightarrow> path \<Rightarrow> string set"
where
  "reexported_names_of g removed f =
     get_or_empty (map_of (find_reexported_imports g (Some removed))) f"

text \<open>The names flagged in file \<open>f\<close> by the single-file analysis.\<close>

definition flagged :: "(path \<times> ImportInfo list) list \<Rightarrow> path \<Rightarrow> string set" where
  "flagged single_file_unused f =
     {n. \<exists>unused. (f, unused) \<in> set single_file_unused \<and> n \<in> name ` set unused}"

text \<open>The number of flagged bindings, over all files.\<close>

definition total_unused :: "(path \<times> ImportInfo list) list \<Rightarrow> nat" where
  "total_unused single_file_unused = (\<Sum>(file_path, unused) \<leftarrow> single_file_unused. length unused)"

text \<open>The flagged bindings whose name is not yet in the removal map.\<close>

definition pending :: "(path \<times> ImportInfo list) list \<Rightarrow> (path \<rightharpoonup> string set) \<Rightarrow> nat" where
  "pending single_file_unused all_removed =
     (\<Sum>(file_path, unused) \<leftarrow> single_file_unused.
        length (filter (\<lambda>imp. name imp \<notin> get_or_empty all_removed file_path) unused))"

text \<open>The total size of the removal map: the sizes of its sets, added up over its keys.\<close>

definition removal_size :: "(path \<rightharpoonup> string set) \<Rightarrow> nat" where
  "removal_size all_removed = (\<Sum>f \<in> dom all_removed. card (get_or_empty all_removed f))"

text \<open>The entries of a removal map, and the entries the single-file analysis allows.\<close>

definition removal_pairs :: "(path \<rightharpoonup> string set) \<Rightarrow> (path \<times> string) set" where
  "removal_pairs all_removed = {(f, n). n \<in> get_or_empty all_removed f}"

definition flagged_pairs :: "(path \<times> ImportInfo list) list \<Rightarrow> (path \<times> string) set" where
  "flagged_pairs single_file_unused = {(f, n). n \<in> flagged single_file_unused f}"

text \<open>Every removed name is flagged in its file and is not re-exported from it.\<close>

definition removal_sound ::
  "ImportGraph \<Rightarrow> (path \<times> ImportInfo list) list \<Rightarrow> (path \<rightharpoonup> string set) \<Rightarrow> bool"
where
  "removal_sound g su ar \<longleftrightarrow>
     (\<forall>f n. n \<in> get_or_empty ar f \<longrightarrow> n \<in> flagged su f \<and> n \<notin> reexported_names_of g ar f)"

text \<open>The importers of the external edges of a list that carry a given module name.\<close>

definition external_importers :: "ImportEdge list \<Rightarrow> string \<Rightarrow> path set" where
  "external_importers es m =
     {importer edge | edge. edge \<in> set es \<and> is_external edge \<and> mod_name edge = m}"

section \<open>Example inputs\<close>

text \<open>
  Three files: \<open>a.py\<close> imports \<open>X\<close> from \<open>b\<close> and uses it, \<open>c.py\<close> imports
  \<open>X\<close> from \<open>b\<close> and does not use it, \<open>b.py\<close> imports \<open>X\<close> from an external module
  and only passes it on.
\<close>

definition imp_X :: "string \<Rightarrow> ImportInfo" where
  "imp_X m = \<lparr>name = ''X'', source_module = m, imported_attr = Some ''X'', level = 0,
              position = (1, 0)\<rparr>"

definition shared_graph :: ImportGraph where
  "shared_graph =
     \<lparr>nodes =
        [(''a.py'', \<lparr>mod_imports = [imp_X ''b''], defined_names = {}, exports = {}\<rparr>),
         (''b.py'', \<lparr>mod_imports = [imp_X ''lib''], defined_names = {}, exports = {}\<rparr>),
         (''c.py'', \<lparr>mod_imports = [imp_X ''b''], defined_names = {}, exports = {}\<rparr>)],
      edges =
        [\<lparr>importer = ''a.py'', imported = Some ''b.py'', mod_name = ''b'', names = {''X''},
          is_external = False\<rparr>,
         \<lparr>importer = ''c.py'', imported = Some ''b.py'', mod_name = ''b'', names = {''X''},
          is_external = False\<rparr>,
         \<lparr>importer = ''b.py'', imported = None, mod_name = ''lib'', names = {''X''},
          is_external = True\<rparr>]\<rparr>"

text \<open>The texts of the three files; here \<open>b.py\<close> has no \<open>__all__\<close>.\<close>

definition plain_read_text :: "path \<Rightarrow> read_error + string" where
  "plain_read_text p =
     (if p = ''a.py'' then Inr ''from b import X; print(X)''
      else if p = ''b.py'' then Inr ''from lib import X''
      else if p = ''c.py'' then Inr ''from b import X''
      else Inl OSError)"

text \<open>The texts of the three files when \<open>b.py\<close> has an empty \<open>__all__\<close>.\<close>

definition all_read_text :: "path \<Rightarrow> read_error + string" where
  "all_read_text p =
     (if p = ''a.py'' then Inr ''from b import X; print(X)''
      else if p = ''b.py'' then Inr ''from lib import X; __all__ = []''
      else if p = ''c.py'' then Inr ''from b import X''
      else Inl OSError)"


text \<open>The single-file analysis on these texts: an import with no use is flagged.\<close>

definition ex_find_unused :: "string \<Rightarrow> ImportInfo list" where
  "ex_find_unused source =
     (if source = ''from lib import X'' then [imp_X ''lib'']
      else if source = ''from lib import X; __all__ = []'' then [imp_X ''lib'']
      else if source = ''from b import X'' then [imp_X ''b'']
      else [])"

text \<open>
  Two files: \<open>a.py\<close> imports \<open>X\<close> from \<open>b\<close> and uses it; \<open>b.py\<close> imports \<open>X\<close> from an
  external module and only passes it on.
\<close>

definition reexport_graph :: ImportGraph where
  "reexport_graph =
     \<lparr>nodes =
        [(''a.py'', \<lparr>mod_imports = [imp_X ''b''], defined_names = {}, exports = {}\<rparr>),
         (''b.py'', \<lparr>mod_imports = [imp_X ''lib''], defined_names = {}, exports = {}\<rparr>)],
      edges =
        [\<lparr>importer = ''a.py'', imported = Some ''b.py'', mod_name = ''b'', names = {''X''},
          is_external = False\<rparr>,
         \<lparr>importer = ''b.py'', imported = None, mod_name = ''lib'', names = {''X''},
          is_external = True\<rparr>]\<rparr>"

text \<open>\<open>b.py\<close> imports \<open>X\<close> and also defines \<open>X\<close>; \<open>a.py\<close> imports \<open>X\<close> from \<open>b\<close>.\<close>

definition shadow_graph :: ImportGraph where
  "shadow_graph =
     \<lparr>nodes =
        [(''a.py'', \<lparr>mod_imports = [imp_X ''b''], defined_names = {}, exports = {}\<rparr>),
         (''b.py'', \<lparr>mod_imports = [imp_X ''lib''], defined_names = {''X''}, exports = {}\<rparr>)],
      edges =
        [\<lparr>importer = ''a.py'', imported = Some ''b.py'', mod_name = ''b'', names = {''X''},
          is_external = False\<rparr>]\<rparr>"

text \<open>
  Two names: \<open>a.py\<close> imports \<open>X\<close> and \<open>Y\<close> from \<open>b\<close> and uses both; \<open>b.py\<close> imports
  them from an external module, only passes them on, and has an empty \<open>__all__\<close>.
\<close>

definition imp_Y :: "string \<Rightarrow> ImportInfo" where
  "imp_Y m = \<lparr>name = ''Y'', source_module = m, imported_attr = Some ''Y'', level = 0,
              position = (1, 3)\<rparr>"

definition two_names_graph :: ImportGraph where
  "two_names_graph =
     \<lparr>nodes =
        [(''a.py'', \<lparr>mod_imports = [imp_X ''b'', imp_Y ''b''], defined_names = {},
                     exports = {}\<rparr>),
         (''b.py'', \<lparr>mod_imports = [imp_X ''lib'', imp_Y ''lib''], defined_names = {},
                     exports = {}\<rparr>)],
      edges =
        [\<lparr>importer = ''a.py'', imported = Some ''b.py'', mod_name = ''b'',
          names = {''X'', ''Y''}, is_external = False\<rparr>,
         \<lparr>importer = ''b.py'', imported = None, mod_name = ''lib'',
          names = {''X'', ''Y''}, is_external = True\<rparr>]\<rparr>"

definition two_names_read_text :: "path \<Rightarrow> read_error + string" where
  "two_names_read_text p =
     (if p = ''a.py'' then Inr ''from b import X, Y; print(X, Y)''
      else if p = ''b.py'' then Inr ''from lib import X, Y; __all__ = []''
      else Inl OSError)"

definition two_names_find_unused :: "string \<Rightarrow> ImportInfo list" where
  "two_names_find_unused source =
     (if source = ''from lib import X, Y; __all__ = []'' then [imp_X ''lib'', imp_Y ''lib'']
      else [])"

text \<open>Two iteration orders of the subsets of \<open>{X, Y}\<close>.\<close>

definition iter_XY :: "string set \<Rightarrow> string list" where
  "iter_XY s = filter (\<lambda>n. n \<in> s) [''X'', ''Y'']"

definition iter_YX :: "string set \<Rightarrow> string list" where
  "iter_YX s = filter (\<lambda>n. n \<in> s) [''Y'', ''X'']"

definition no_cycles :: "ImportGraph \<Rightarrow> path list list" where
  "no_cycles g = []"

section \<open>Properties of the loops\<close>

subsection \<open>Dictionaries\<close>

lemma get_or_empty_upd [simp]:
  "get_or_empty (d(k \<mapsto> s)) k' = (if k' = k then s else get_or_empty d k')"
  by (simp add: get_or_empty_def)

lemma get_or_empty_empty [simp]: "get_or_empty Map.empty k = {}"
  by (simp add: get_or_empty_def)

lemma get_or_empty_dd_index [simp]: "get_or_empty (dd_index d k) k' = get_or_empty d k'"
  by (simp add: get_or_empty_def dd_index_def split: option.splits)

lemma dd_index_same: "get_or_empty d k \<noteq> {} \<Longrightarrow> dd_index d k = d"
  by (auto simp: get_or_empty_def dd_index_def split: option.splits)

lemma dd_index_apply:
  "dd_index d k k' = (if k' = k \<and> d k = None then Some {} else d k')"
  by (simp add: dd_index_def split: option.splits)

lemma dom_dd_index: "dom (dd_index d k) \<subseteq> insert k (dom d)"
  by (auto simp: dd_index_def split: option.splits)

lemma get_or_empty_dd_add_all:
  "get_or_empty (map_of (dd_add_all k xs d)) k' =
     (if k' = k then get_or_empty (map_of d) k \<union> xs else get_or_empty (map_of d) k')"
  by (simp add: dd_add_all_def AList.update_conv')

lemma dd_add_all_distinct: "distinct (map fst d) \<Longrightarrow> distinct (map fst (dd_add_all k xs d))"
  by (simp add: dd_add_all_def AList.distinct_update)

subsection \<open>One pass of the cascade\<close>

lemma mark_unused_get:
  "get_or_empty (fst (mark_unused fp rn us st)) f =
     (if f = fp then get_or_empty (fst st) fp \<union> {n \<in> name ` set us. n \<notin> rn}
      else get_or_empty (fst st) f)"
proof (induction us arbitrary: st f)
  case Nil
  then show ?case by simp
next
  case (Cons imp us)
  obtain ar ch where st: "st = (ar, ch)" by (cases st)
  show ?case unfolding st by (auto simp: Let_def Cons.IH)
qed

lemma mark_unused_changed:
  "snd (mark_unused fp rn us st) \<longleftrightarrow>
     snd st \<or> (\<exists>imp \<in> set us. name imp \<notin> rn \<and> name imp \<notin> get_or_empty (fst st) fp)"
proof (induction us arbitrary: st)
  case Nil
  then show ?case by simp
next
  case (Cons imp us)
  obtain ar ch where st: "st = (ar, ch)" by (cases st)
  show ?case unfolding st by (auto simp: Let_def Cons.IH)
qed

lemma mark_unused_same:
  "\<not> snd (mark_unused fp rn us st) \<Longrightarrow> fst (mark_unused fp rn us st) = fst st"
proof (induction us arbitrary: st)
  case Nil
  then show ?case by simp
next
  case (Cons imp us)
  obtain ar ch where st: "st = (ar, ch)" by (cases st)
  show ?case
  proof (cases "name imp \<in> rn")
    case True
    with Cons show ?thesis by (simp add: st)
  next
    case False
    with Cons.prems have in_ar: "name imp \<in> get_or_empty ar fp"
      unfolding mark_unused_changed st by auto
    then have "dd_index ar fp = ar"
      by (intro dd_index_same) auto
    with Cons False in_ar show ?thesis by (simp add: Let_def st)
  qed
qed

lemma mark_unused_dom:
  "dom (fst (mark_unused fp rn us st)) \<subseteq> insert fp (dom (fst st))"
proof (induction us arbitrary: st)
  case Nil
  then show ?case by auto
next
  case (Cons imp us)
  obtain ar ch where st: "st = (ar, ch)" by (cases st)
  have step: "dom (fst (mark_unused fp rn us st')) \<subseteq> insert fp (dom ar)"
    if "dom (fst st') \<subseteq> insert fp (dom ar)" for st'
    using Cons.IH [of st'] that by blast
  show ?case
  proof (cases "name imp \<in> rn")
    case True
    have "dom (fst (mark_unused fp rn us (ar, ch))) \<subseteq> insert fp (dom ar)"
      by (rule step) auto
    with True show ?thesis unfolding st by simp
  next
    case False
    show ?thesis
    proof (cases "name imp \<in> get_or_empty ar fp")
      case True
      have "dom (fst (mark_unused fp rn us (dd_index ar fp, ch))) \<subseteq> insert fp (dom ar)"
        using dom_dd_index [of ar fp] by (intro step) simp
      with True \<open>name imp \<notin> rn\<close> show ?thesis
        unfolding st by (simp add: Let_def)
    next
      case False
      have "dom (fst (mark_unused fp rn us
          ((dd_index ar fp)(fp \<mapsto> insert (name imp) (get_or_empty ar fp)), True)))
          \<subseteq> insert fp (dom ar)"
        using dom_dd_index [of ar fp] by (intro step) simp
      with False \<open>name imp \<notin> rn\<close> show ?thesis
        unfolding st by (simp add: Let_def)
    qed
  qed
qed

lemma mark_files_get:
  "get_or_empty (fst (mark_files reex su st)) f =
     get_or_empty (fst st) f \<union>
     {n. \<exists>us. (f, us) \<in> set su \<and> n \<in> name ` set us \<and> n \<notin> get_or_empty (map_of reex) f}"
proof (induction su arbitrary: st)
  case Nil
  then show ?case by simp
next
  case (Cons p su)
  obtain fp us where p: "p = (fp, us)" by (cases p)
  show ?case
    unfolding p by (simp add: Cons.IH mark_unused_get) auto
qed

lemma mark_files_changed:
  "snd (mark_files reex su st) \<longleftrightarrow>
     snd st \<or> (\<exists>f us imp. (f, us) \<in> set su \<and> imp \<in> set us \<and>
              name imp \<notin> get_or_empty (map_of reex) f \<and> name imp \<notin> get_or_empty (fst st) f)"
proof (induction su arbitrary: st)
  case Nil
  then show ?case by simp
next
  case (Cons p su)
  obtain fp us where p: "p = (fp, us)" by (cases p)
  define R where "R = (\<lambda>f. get_or_empty (map_of reex) f)"
  define st' where "st' = mark_unused fp (R fp) us st"
  have step: "mark_files reex ((fp, us) # su) st = mark_files reex su st'"
    by (simp add: st'_def R_def)
  have ch': "snd st' \<longleftrightarrow>
      snd st \<or> (\<exists>imp \<in> set us. name imp \<notin> R fp \<and> name imp \<notin> get_or_empty (fst st) fp)"
    unfolding st'_def by (rule mark_unused_changed)
  have get': "\<And>f. get_or_empty (fst st') f =
      (if f = fp then get_or_empty (fst st) fp \<union> {n \<in> name ` set us. n \<notin> R fp}
       else get_or_empty (fst st) f)"
    unfolding st'_def by (rule mark_unused_get)
  have ih: "snd (mark_files reex su st') \<longleftrightarrow>
      snd st' \<or> (\<exists>f us imp. (f, us) \<in> set su \<and> imp \<in> set us \<and>
              name imp \<notin> R f \<and> name imp \<notin> get_or_empty (fst st') f)"
    unfolding R_def by (rule Cons.IH)
  have "snd (mark_files reex su st') \<longleftrightarrow>
     snd st \<or> (\<exists>f us' imp. (f, us') \<in> set ((fp, us) # su) \<and> imp \<in> set us' \<and>
              name imp \<notin> R f \<and> name imp \<notin> get_or_empty (fst st) f)"
  proof
    assume "snd (mark_files reex su st')"
    with ih consider "snd st'" |
      f us' imp where "(f, us') \<in> set su" "imp \<in> set us'" "name imp \<notin> R f"
        "name imp \<notin> get_or_empty (fst st') f"
      by blast
    then show "snd st \<or> (\<exists>f us' imp. (f, us') \<in> set ((fp, us) # su) \<and> imp \<in> set us' \<and>
              name imp \<notin> R f \<and> name imp \<notin> get_or_empty (fst st) f)"
    proof cases
      case 1
      with ch' show ?thesis by auto
    next
      case 2
      from 2(4) have "name imp \<notin> get_or_empty (fst st) f"
        by (auto simp: get' split: if_splits)
      with 2 show ?thesis by auto
    qed
  next
    assume "snd st \<or> (\<exists>f us' imp. (f, us') \<in> set ((fp, us) # su) \<and> imp \<in> set us' \<and>
              name imp \<notin> R f \<and> name imp \<notin> get_or_empty (fst st) f)"
    then consider "snd st" |
      imp where "imp \<in> set us" "name imp \<notin> R fp" "name imp \<notin> get_or_empty (fst st) fp" |
      f us' imp where "(f, us') \<in> set su" "imp \<in> set us'" "name imp \<notin> R f"
        "name imp \<notin> get_or_empty (fst st) f"
      by auto
    then show "snd (mark_files reex su st')"
    proof cases
      case 1
      with ch' ih show ?thesis by simp
    next
      case 2
      with ch' ih show ?thesis by blast
    next
      case 3
      show ?thesis
      proof (cases "name imp \<in> get_or_empty (fst st') f")
        case False
        with 3 ih show ?thesis by blast
      next
        case True
        with 3(3,4) have "f = fp" "name imp \<in> name ` set us"
          by (auto simp: get' split: if_splits)
        with 3(3,4) have "\<exists>imp' \<in> set us. name imp' \<notin> R fp \<and> name imp' \<notin> get_or_empty (fst st) fp"
          by auto
        with ch' ih show ?thesis by simp
      qed
    qed
  qed
  then show ?case by (simp only: step p R_def)
qed

lemma mark_files_same:
  "\<not> snd (mark_files reex su st) \<Longrightarrow> fst (mark_files reex su st) = fst st"
proof (induction su arbitrary: st)
  case Nil
  then show ?case by simp
next
  case (Cons p su)
  obtain fp us where p: "p = (fp, us)" by (cases p)
  let ?st' = "mark_unused fp (get_or_empty (map_of reex) fp) us st"
  from Cons.prems have n: "\<not> snd (mark_files reex su ?st')" by (simp add: p)
  then have "\<not> snd ?st'" by (simp add: mark_files_changed)
  then have "fst ?st' = fst st" by (rule mark_unused_same)
  with Cons.IH [OF n] show ?case by (simp add: p)
qed

lemma mark_files_dom:
  "dom (fst (mark_files reex su st)) \<subseteq> dom (fst st) \<union> fst ` set su"
proof (induction su arbitrary: st)
  case Nil
  then show ?case by simp
next
  case (Cons p su)
  obtain fp us where p: "p = (fp, us)" by (cases p)
  have "dom (fst (mark_files reex su (mark_unused fp (get_or_empty (map_of reex) fp) us st)))
      \<subseteq> dom (fst st) \<union> insert fp (fst ` set su)"
    using Cons.IH [of "mark_unused fp (get_or_empty (map_of reex) fp) us st"]
      mark_unused_dom [of fp "get_or_empty (map_of reex) fp" us st]
    by blast
  then show ?case
    unfolding p by simp
qed

subsection \<open>The re-export loop\<close>

lemma find_reexported_loop_get:
  "get_or_empty (map_of (find_reexported_loop g removed es reex)) f =
     get_or_empty (map_of reex) f \<union> (\<Union>edge \<in> set es. edge_reexports g removed edge f)"
proof (induction es arbitrary: reex)
  case Nil
  then show ?case by simp
next
  case (Cons edge es)
  have "get_or_empty (map_of (find_reexported_loop g removed (edge # es) reex)) f =
     (get_or_empty (map_of reex) f \<union> edge_reexports g removed edge f) \<union>
     (\<Union>edge \<in> set es. edge_reexports g removed edge f)"
    by (auto simp: Cons.IH Let_def get_or_empty_dd_add_all edge_reexports_def
        split: option.splits)
  then show ?case by auto
qed

lemma find_reexported_imports_get:
  "get_or_empty (map_of (find_reexported_imports g (Some removed))) f =
     (\<Union>edge \<in> set (edges g). edge_reexports g removed edge f)"
  by (simp add: find_reexported_imports_def find_reexported_loop_get)

lemma reexported_names_of_iff:
  "n \<in> reexported_names_of g removed f \<longleftrightarrow>
     (\<exists>edge \<in> set (edges g). n \<in> edge_reexports g removed edge f)"
  by (simp add: reexported_names_of_def find_reexported_imports_get)

lemma reexported_names_of_antimono:
  assumes "\<And>f. get_or_empty r1 f \<subseteq> get_or_empty r2 f"
  shows "reexported_names_of g r2 f \<subseteq> reexported_names_of g r1 f"
proof
  fix n assume "n \<in> reexported_names_of g r2 f"
  then obtain edge where e: "edge \<in> set (edges g)" "n \<in> edge_reexports g r2 edge f"
    unfolding reexported_names_of_iff by blast
  from e(2) assms [of "importer edge"] have "n \<in> edge_reexports g r1 edge f"
    by (auto simp: edge_reexports_def)
  with e(1) show "n \<in> reexported_names_of g r1 f"
    unfolding reexported_names_of_iff by blast
qed

lemma find_reexported_loop_distinct:
  "distinct (map fst reex) \<Longrightarrow> distinct (map fst (find_reexported_loop g removed es reex))"
  by (induction es arbitrary: reex)
     (auto simp: Let_def dd_add_all_distinct split: option.splits)

lemma find_reexported_imports_distinct:
  "distinct (map fst (find_reexported_imports g removed_imports))"
  by (simp add: find_reexported_imports_def find_reexported_loop_distinct)

lemma find_reexported_entry:
  assumes "(f, s) \<in> set (find_reexported_imports g (Some removed))"
  shows "s = reexported_names_of g removed f"
proof -
  from assms have "map_of (find_reexported_imports g (Some removed)) f = Some s"
    using find_reexported_imports_distinct [of g "Some removed"] by simp
  then show ?thesis by (simp add: reexported_names_of_def get_or_empty_def)
qed

lemma reexported_has_entry:
  assumes "n \<in> reexported_names_of g removed f"
  shows "(f, reexported_names_of g removed f) \<in> set (find_reexported_imports g (Some removed))"
proof -
  from assms obtain s where s: "map_of (find_reexported_imports g (Some removed)) f = Some s"
    by (auto simp: reexported_names_of_def get_or_empty_def split: option.splits)
  then have "(f, s) \<in> set (find_reexported_imports g (Some removed))"
    by (rule map_of_SomeD)
  with find_reexported_entry [of f s g removed] show ?thesis by simp
qed

subsection \<open>Termination of the cascade\<close>

text \<open>
  The number of flagged bindings whose name is not yet removed decreases on every pass
  that sets \<open>changed\<close>.
\<close>

lemma length_filter_mono:
  "(\<And>x. x \<in> set xs \<Longrightarrow> P x \<Longrightarrow> Q x) \<Longrightarrow> length (filter P xs) \<le> length (filter Q xs)"
  by (induction xs) auto

lemma length_filter_less:
  assumes "\<And>x. x \<in> set xs \<Longrightarrow> P x \<Longrightarrow> Q x" and "x \<in> set xs" and "Q x" and "\<not> P x"
  shows "length (filter P xs) < length (filter Q xs)"
  using assms
proof (induction xs)
  case Nil
  then show ?case by simp
next
  case (Cons y ys)
  have le: "length (filter P ys) \<le> length (filter Q ys)"
    using Cons.prems(1) by (intro length_filter_mono) auto
  show ?case
  proof (cases "x = y")
    case True
    with Cons.prems le show ?thesis by auto
  next
    case False
    with Cons.prems have "x \<in> set ys" by simp
    then have "length (filter P ys) < length (filter Q ys)"
      using Cons.IH Cons.prems by auto
    with Cons.prems(1) [of y] show ?thesis by auto
  qed
qed

lemma sum_list_map_le:
  "(\<And>x. x \<in> set xs \<Longrightarrow> f x \<le> (h x :: nat)) \<Longrightarrow> sum_list (map f xs) \<le> sum_list (map h xs)"
  by (induction xs) (auto intro: add_mono)

lemma sum_list_map_less:
  assumes "\<And>x. x \<in> set xs \<Longrightarrow> f x \<le> (h x :: nat)" and "x \<in> set xs" and "f x < h x"
  shows "sum_list (map f xs) < sum_list (map h xs)"
  using assms
proof (induction xs)
  case Nil
  then show ?case by simp
next
  case (Cons y ys)
  have le: "sum_list (map f ys) \<le> sum_list (map h ys)"
    using Cons.prems(1) by (intro sum_list_map_le) auto
  show ?case
  proof (cases "x = y")
    case True
    with Cons.prems le show ?thesis by auto
  next
    case False
    with Cons.prems have "x \<in> set ys" by simp
    then have "sum_list (map f ys) < sum_list (map h ys)"
      using Cons.IH Cons.prems by auto
    moreover have "f y \<le> h y" using Cons.prems(1) by simp
    ultimately show ?thesis by simp
  qed
qed

lemma pending_less:
  assumes sub: "\<And>f. get_or_empty ar f \<subseteq> get_or_empty ar' f"
    and mem: "(f, us) \<in> set su" "imp \<in> set us"
    and new: "name imp \<notin> get_or_empty ar f" "name imp \<in> get_or_empty ar' f"
  shows "pending su ar' < pending su ar"
  unfolding pending_def
proof (rule sum_list_map_less [where x = "(f, us)"])
  fix p assume "p \<in> set su"
  obtain fp us' where p: "p = (fp, us')" by (cases p)
  have "length (filter (\<lambda>imp. name imp \<notin> get_or_empty ar' fp) us')
      \<le> length (filter (\<lambda>imp. name imp \<notin> get_or_empty ar fp) us')"
    using sub [of fp] by (intro length_filter_mono) auto
  then show "(case p of (file_path, unused) \<Rightarrow>
          length (filter (\<lambda>imp. name imp \<notin> get_or_empty ar' file_path) unused))
      \<le> (case p of (file_path, unused) \<Rightarrow>
          length (filter (\<lambda>imp. name imp \<notin> get_or_empty ar file_path) unused))"
    by (simp add: p)
next
  show "(f, us) \<in> set su" by (rule mem)
next
  have "length (filter (\<lambda>imp. name imp \<notin> get_or_empty ar' f) us)
      < length (filter (\<lambda>imp. name imp \<notin> get_or_empty ar f) us)"
    using sub [of f] mem(2) new by (intro length_filter_less [where x = imp]) auto
  then show "(case (f, us) of (file_path, unused) \<Rightarrow>
          length (filter (\<lambda>imp. name imp \<notin> get_or_empty ar' file_path) unused))
      < (case (f, us) of (file_path, unused) \<Rightarrow>
          length (filter (\<lambda>imp. name imp \<notin> get_or_empty ar file_path) unused))"
    by simp
qed

lemma cascade_step_get:
  "get_or_empty (fst (cascade_step g su ar)) f =
     get_or_empty ar f \<union> {n \<in> flagged su f. n \<notin> reexported_names_of g ar f}"
  unfolding cascade_step_def reexported_names_of_def flagged_def
  by (simp add: mark_files_get) blast

lemma cascade_step_changed:
  "snd (cascade_step g su ar) \<longleftrightarrow>
     (\<exists>f us imp. (f, us) \<in> set su \<and> imp \<in> set us \<and>
        name imp \<notin> reexported_names_of g ar f \<and> name imp \<notin> get_or_empty ar f)"
  unfolding cascade_step_def reexported_names_of_def
  by (simp add: mark_files_changed)

lemma cascade_step_same:
  "\<not> snd (cascade_step g su ar) \<Longrightarrow> fst (cascade_step g su ar) = ar"
  unfolding cascade_step_def using mark_files_same [of _ su "(ar, False)"] by simp

lemma cascade_step_dom:
  "dom (fst (cascade_step g su ar)) \<subseteq> dom ar \<union> fst ` set su"
  unfolding cascade_step_def using mark_files_dom [of _ su "(ar, False)"] by simp

lemma cascade_step_pending:
  assumes "snd (cascade_step g su ar)"
  shows "pending su (fst (cascade_step g su ar)) < pending su ar"
proof -
  from assms obtain f us imp where w: "(f, us) \<in> set su" "imp \<in> set us"
      "name imp \<notin> reexported_names_of g ar f" "name imp \<notin> get_or_empty ar f"
    unfolding cascade_step_changed by blast
  have "name imp \<in> get_or_empty (fst (cascade_step g su ar)) f"
    using w by (auto simp: cascade_step_get flagged_def)
  then show ?thesis
    using w by (intro pending_less [where f = f and us = us and imp = imp])
      (auto simp: cascade_step_get)
qed

termination cascade
  by (relation "measure (\<lambda>(g, su, ar). pending su ar)") (auto intro: cascade_step_pending)

declare cascade.simps [simp del]

subsection \<open>The cascade at its exit\<close>

lemma removal_sound_empty: "removal_sound g su Map.empty"
  by (simp add: removal_sound_def)

lemma removal_sound_step:
  assumes "removal_sound g su ar"
  shows "removal_sound g su (fst (cascade_step g su ar))"
  unfolding removal_sound_def
proof (intro allI impI)
  fix f n
  let ?ar' = "fst (cascade_step g su ar)"
  assume n: "n \<in> get_or_empty ?ar' f"
  have sub: "\<And>f. get_or_empty ar f \<subseteq> get_or_empty ?ar' f"
    by (simp add: cascade_step_get)
  have anti: "reexported_names_of g ?ar' f \<subseteq> reexported_names_of g ar f"
    using sub by (rule reexported_names_of_antimono)
  from n have "n \<in> flagged su f \<and> n \<notin> reexported_names_of g ar f"
    using assms unfolding removal_sound_def cascade_step_get by blast
  with anti show "n \<in> flagged su f \<and> n \<notin> reexported_names_of g ?ar' f"
    by blast
qed

lemma cascade_sound: "removal_sound g su ar \<Longrightarrow> removal_sound g su (cascade g su ar)"
proof (induction g su ar rule: cascade.induct)
  case (1 g su ar)
  show ?case
  proof (cases "snd (cascade_step g su ar)")
    case True
    with 1 show ?thesis
      by (subst cascade.simps) (simp add: removal_sound_step)
  next
    case False
    with 1 show ?thesis
      by (subst cascade.simps) (simp add: removal_sound_step)
  qed
qed

lemma cascade_stable: "\<not> snd (cascade_step g su (cascade g su ar))"
proof (induction g su ar rule: cascade.induct)
  case (1 g su ar)
  show ?case
  proof (cases "snd (cascade_step g su ar)")
    case True
    with 1 show ?thesis
      by (subst cascade.simps) simp
  next
    case False
    then show ?thesis
      by (subst cascade.simps) (simp add: cascade_step_same)
  qed
qed

text \<open>At the exit of the loop a flagged name is removed iff it is not re-exported.\<close>

lemma cascade_removed_iff:
  assumes "n \<in> flagged su f"
  shows "n \<in> get_or_empty (cascade g su Map.empty) f \<longleftrightarrow>
         n \<notin> reexported_names_of g (cascade g su Map.empty) f"
proof
  assume "n \<in> get_or_empty (cascade g su Map.empty) f"
  with cascade_sound [OF removal_sound_empty, of g su]
  show "n \<notin> reexported_names_of g (cascade g su Map.empty) f"
    unfolding removal_sound_def by blast
next
  assume nr: "n \<notin> reexported_names_of g (cascade g su Map.empty) f"
  from assms obtain us imp where "(f, us) \<in> set su" "imp \<in> set us" "n = name imp"
    unfolding flagged_def by auto
  with nr cascade_stable [of g su Map.empty]
  show "n \<in> get_or_empty (cascade g su Map.empty) f"
    unfolding cascade_step_changed by blast
qed

subsection \<open>The size of the removal map\<close>

lemma flagged_pairs_Nil: "flagged_pairs [] = {}"
  by (simp add: flagged_pairs_def flagged_def)

lemma flagged_pairs_Cons:
  "flagged_pairs ((f, us) # su) = (\<lambda>imp. (f, name imp)) ` set us \<union> flagged_pairs su"
  by (auto simp: flagged_pairs_def flagged_def)

lemma flagged_pairs_finite: "finite (flagged_pairs su)"
proof (induction su)
  case Nil
  then show ?case by (simp add: flagged_pairs_Nil)
next
  case (Cons p su)
  obtain f us where p: "p = (f, us)" by (cases p)
  from Cons show ?case by (simp add: p flagged_pairs_Cons)
qed

lemma flagged_pairs_card: "card (flagged_pairs su) \<le> total_unused su"
proof (induction su)
  case Nil
  then show ?case by (simp add: flagged_pairs_Nil)
next
  case (Cons p su)
  obtain f us where p: "p = (f, us)" by (cases p)
  have "card (flagged_pairs (p # su))
      \<le> card ((\<lambda>imp. (f, name imp)) ` set us) + card (flagged_pairs su)"
    unfolding p flagged_pairs_Cons by (rule card_Un_le)
  also have "card ((\<lambda>imp. (f, name imp)) ` set us) \<le> length us"
    by (rule order_trans [OF card_image_le card_length]) simp
  finally show ?case
    using Cons.IH by (simp add: p total_unused_def)
qed

lemma removed_after_dom: "dom (removed_after g su k) \<subseteq> fst ` set su"
proof (induction k)
  case 0
  then show ?case by simp
next
  case (Suc k)
  with cascade_step_dom [of g su "removed_after g su k"] show ?case by auto
qed

lemma removed_after_sound: "removal_sound g su (removed_after g su k)"
  by (induction k) (simp_all add: removal_sound_empty removal_sound_step)

lemma removed_after_pairs: "removal_pairs (removed_after g su k) \<subseteq> flagged_pairs su"
  using removed_after_sound [of g su k]
  unfolding removal_pairs_def flagged_pairs_def removal_sound_def by blast

lemma removal_size_card:
  assumes "finite (dom ar)" and "finite (removal_pairs ar)"
  shows "removal_size ar = card (removal_pairs ar)"
proof -
  have sets: "\<And>f. finite (get_or_empty ar f)"
  proof -
    fix f
    have "Pair f ` get_or_empty ar f \<subseteq> removal_pairs ar"
      by (auto simp: removal_pairs_def)
    with assms(2) have "finite (Pair f ` get_or_empty ar f)"
      by (rule rev_finite_subset)
    then show "finite (get_or_empty ar f)"
      by (rule finite_imageD) (simp add: inj_on_def)
  qed
  have "removal_pairs ar = (SIGMA f:dom ar. get_or_empty ar f)"
    by (auto simp: removal_pairs_def get_or_empty_def split: option.splits)
  then show ?thesis
    unfolding removal_size_def using assms(1) sets by (simp add: card_SigmaI)
qed

lemma removed_after_size:
  "removal_size (removed_after g su k) = card (removal_pairs (removed_after g su k))"
proof (rule removal_size_card)
  show "finite (dom (removed_after g su k))"
    using removed_after_dom [of g su k] by (rule finite_subset) simp
  show "finite (removal_pairs (removed_after g su k))"
    using removed_after_pairs flagged_pairs_finite by (rule finite_subset)
qed

lemma removed_after_bound: "removal_size (removed_after g su k) \<le> total_unused su"
proof -
  have "card (removal_pairs (removed_after g su k)) \<le> card (flagged_pairs su)"
    using removed_after_pairs by (intro card_mono flagged_pairs_finite)
  with flagged_pairs_card [of su] show ?thesis
    by (simp add: removed_after_size)
qed

lemma removed_after_increases:
  assumes "snd (cascade_step g su (removed_after g su k))"
  shows "removal_size (removed_after g su k) < removal_size (removed_after g su (Suc k))"
proof -
  let ?ar = "removed_after g su k" and ?ar' = "removed_after g su (Suc k)"
  from assms obtain f us imp where w: "(f, us) \<in> set su" "imp \<in> set us"
      "name imp \<notin> reexported_names_of g ?ar f" "name imp \<notin> get_or_empty ?ar f"
    unfolding cascade_step_changed by blast
  then have new: "(f, name imp) \<in> removal_pairs ?ar'" "(f, name imp) \<notin> removal_pairs ?ar"
    by (auto simp: removal_pairs_def cascade_step_get flagged_def)
  have "removal_pairs ?ar \<subseteq> removal_pairs ?ar'"
    by (auto simp: removal_pairs_def cascade_step_get)
  with new have "removal_pairs ?ar \<subset> removal_pairs ?ar'" by blast
  moreover have "finite (removal_pairs ?ar')"
    using removed_after_pairs flagged_pairs_finite by (rule finite_subset)
  ultimately have "card (removal_pairs ?ar) < card (removal_pairs ?ar')"
    by (rule psubset_card_mono [rotated])
  then show ?thesis by (simp only: removed_after_size)
qed

lemma cascade_unroll:
  assumes "\<And>j. j < k \<Longrightarrow> snd (cascade_step g su (removed_after g su j))"
  shows "cascade g su Map.empty = cascade g su (removed_after g su k)"
  using assms
proof (induction k)
  case 0
  then show ?case by simp
next
  case (Suc k)
  then have "cascade g su Map.empty = cascade g su (removed_after g su k)" by simp
  also have "\<dots> = cascade g su (removed_after g su (Suc k))"
    using Suc.prems [of k] by (subst cascade.simps) simp
  finally show ?case .
qed

lemma cascade_exit:
  "\<exists>k \<le> total_unused su. \<not> snd (cascade_step g su (removed_after g su k)) \<and>
     cascade g su Map.empty = removed_after g su (Suc k)"
proof -
  let ?changed = "\<lambda>k. snd (cascade_step g su (removed_after g su k))"
  have grow: "(\<And>j. j < k \<Longrightarrow> ?changed j) \<Longrightarrow> k \<le> removal_size (removed_after g su k)" for k
  proof (induction k)
    case 0
    then show ?case by simp
  next
    case (Suc k)
    then have "k \<le> removal_size (removed_after g su k)" by simp
    moreover have "removal_size (removed_after g su k) < removal_size (removed_after g su (Suc k))"
      using Suc.prems [of k] by (intro removed_after_increases) simp
    ultimately show ?case by simp
  qed
  have ex: "\<exists>k. \<not> ?changed k"
  proof (rule ccontr)
    assume "\<not> (\<exists>k. \<not> ?changed k)"
    then have "Suc (total_unused su) \<le> removal_size (removed_after g su (Suc (total_unused su)))"
      by (intro grow) simp
    with removed_after_bound [of g su "Suc (total_unused su)"] show False by simp
  qed
  define k where "k = (LEAST k. \<not> ?changed k)"
  have stop: "\<not> ?changed k"
    unfolding k_def using ex by (rule LeastI_ex)
  have before: "\<And>j. j < k \<Longrightarrow> ?changed j"
    unfolding k_def using not_less_Least by blast
  from before have "k \<le> removal_size (removed_after g su k)" by (rule grow)
  with removed_after_bound [of g su k] have "k \<le> total_unused su" by simp
  moreover from before have "cascade g su Map.empty = cascade g su (removed_after g su k)"
    by (rule cascade_unroll)
  with stop have "cascade g su Map.empty = removed_after g su (Suc k)"
    by (subst (asm) (2) cascade.simps) simp
  ultimately show ?thesis using stop by blast
qed

subsection \<open>The single-file step and the resulting lists\<close>

lemma single_file_unused_loop_distinct:
  "distinct (map fst result) \<Longrightarrow>
   distinct (map fst (single_file_unused_loop read_text find_unused_imports ns result))"
  by (induction ns arbitrary: result)
     (auto simp: Let_def AList.distinct_update split: sum.splits)

lemma get_single_file_unused_distinct:
  "distinct (map fst (get_single_file_unused read_text find_unused_imports g))"
  by (simp add: get_single_file_unused_def single_file_unused_loop_distinct)

lemma single_file_unused_loop_map_of:
  "map_of (single_file_unused_loop read_text find_unused_imports ns result) f =
     (case read_text f of
        Inl err \<Rightarrow> map_of result f
      | Inr source \<Rightarrow>
          if f \<in> fst ` set ns \<and> find_unused_imports source \<noteq> []
          then Some (find_unused_imports source) else map_of result f)"
proof (induction ns arbitrary: result)
  case Nil
  then show ?case by (simp split: sum.splits)
next
  case (Cons p ns)
  obtain fp mi where p: "p = (fp, mi)" by (cases p)
  have mem: "f \<in> fst ` set (p # ns) \<longleftrightarrow> f = fp \<or> f \<in> fst ` set ns"
    by (simp add: p)
  show ?case
    unfolding mem unfolding p
    by (auto simp: Cons.IH Let_def AList.update_conv' split: sum.splits)
qed

lemma get_single_file_unused_map_of:
  "map_of (get_single_file_unused read_text find_unused_imports g) f =
     (case read_text f of
        Inl err \<Rightarrow> None
      | Inr source \<Rightarrow>
          if f \<in> fst ` set (nodes g) \<and> find_unused_imports source \<noteq> []
          then Some (find_unused_imports source) else None)"
  by (simp add: get_single_file_unused_def single_file_unused_loop_map_of split: sum.splits)

lemma flagged_distinct:
  assumes "distinct (map fst su)"
  shows "flagged su f = name ` set (get_or_nil (map_of su) f)"
proof (cases "map_of su f")
  case None
  then have "f \<notin> fst ` set su"
    by (simp add: map_of_eq_None_iff)
  then have "\<And>us. (f, us) \<notin> set su"
    by force
  with None show ?thesis by (simp add: flagged_def get_or_nil_def)
next
  case (Some us)
  with assms have "\<And>us'. (f, us') \<in> set su \<longleftrightarrow> us' = us"
    by (metis map_of_eq_Some_iff option.inject)
  with Some show ?thesis by (simp add: flagged_def get_or_nil_def)
qed



lemma get_or_nil_build_unused_imports:
  "get_or_nil (build_unused_imports su ar) f =
     filter (\<lambda>imp. name imp \<in> get_or_empty ar f) (get_or_nil (map_of su) f)"
  by (simp add: build_unused_imports_def get_or_nil_def get_or_empty_def Let_def
      split: option.splits)


subsection \<open>Implicit re-exports\<close>

lemma find_implicit_reexports_set:
  "set (find_implicit_reexports iter_names g reex) =
     {\<lparr>source_file = f, import_name = n, used_by = collect_used_by g f n\<rparr> | f s n module_info.
        (f, s) \<in> set reex \<and> map_of (nodes g) f = Some module_info \<and>
        n \<in> set (iter_names s) \<and> n \<notin> exports module_info}"
proof (induction reex)
  case Nil
  then show ?case by simp
next
  case (Cons p reex)
  obtain fp s where p: "p = (fp, s)" by (cases p)
  show ?case
    unfolding p by (auto simp: Cons.IH split: option.splits)
qed

lemma find_implicit_reexports_mset:
  assumes "\<And>f s. (f, s) \<in> set reex \<Longrightarrow> iterates it1 s \<and> iterates it2 s"
  shows "mset (find_implicit_reexports it1 g reex) = mset (find_implicit_reexports it2 g reex)"
  using assms
proof (induction reex)
  case Nil
  then show ?case by simp
next
  case (Cons p reex)
  obtain fp s where p: "p = (fp, s)" by (cases p)
  from Cons.prems [of fp s] have "mset (it1 s) = mset (it2 s)"
    unfolding p iterates_def by (simp add: set_eq_iff_mset_eq_distinct [symmetric])
  moreover have "mset (find_implicit_reexports it1 g reex) = mset (find_implicit_reexports it2 g reex)"
    using Cons.prems by (intro Cons.IH) auto
  ultimately show ?case
    unfolding p by (simp split: option.splits)
qed

lemma implicit_reexports_iff:
  assumes "\<forall>(f, s) \<in> set (find_reexported_imports g (Some removed)). iterates iter_names s"
  shows "ir \<in> set (find_implicit_reexports iter_names g (find_reexported_imports g (Some removed))) \<longleftrightarrow>
     import_name ir \<in> reexported_names_of g removed (source_file ir) \<and>
     (\<exists>module_info. map_of (nodes g) (source_file ir) = Some module_info \<and>
        import_name ir \<notin> exports module_info) \<and>
     used_by ir = collect_used_by g (source_file ir) (import_name ir)"
proof
  assume "ir \<in> set (find_implicit_reexports iter_names g (find_reexported_imports g (Some removed)))"
  then obtain f s n module_info where
    ir: "ir = \<lparr>source_file = f, import_name = n, used_by = collect_used_by g f n\<rparr>"
    and mem: "(f, s) \<in> set (find_reexported_imports g (Some removed))"
    and node: "map_of (nodes g) f = Some module_info"
    and n: "n \<in> set (iter_names s)" "n \<notin> exports module_info"
    unfolding find_implicit_reexports_set by blast
  from mem have s: "s = reexported_names_of g removed f"
    by (rule find_reexported_entry)
  from assms mem have "iterates iter_names s" by blast
  with n(1) s have "n \<in> reexported_names_of g removed f"
    by (simp add: iterates_def)
  with node n(2) show "import_name ir \<in> reexported_names_of g removed (source_file ir) \<and>
     (\<exists>module_info. map_of (nodes g) (source_file ir) = Some module_info \<and>
        import_name ir \<notin> exports module_info) \<and>
     used_by ir = collect_used_by g (source_file ir) (import_name ir)"
    by (simp add: ir)
next
  assume r: "import_name ir \<in> reexported_names_of g removed (source_file ir) \<and>
     (\<exists>module_info. map_of (nodes g) (source_file ir) = Some module_info \<and>
        import_name ir \<notin> exports module_info) \<and>
     used_by ir = collect_used_by g (source_file ir) (import_name ir)"
  let ?f = "source_file ir" and ?n = "import_name ir"
  let ?s = "reexported_names_of g removed ?f"
  from r obtain module_info where node: "map_of (nodes g) ?f = Some module_info"
    and out: "?n \<notin> exports module_info" by blast
  from r have mem: "(?f, ?s) \<in> set (find_reexported_imports g (Some removed))"
    by (intro reexported_has_entry [of ?n]) simp
  with assms have "iterates iter_names ?s" by blast
  with r have n: "?n \<in> set (iter_names ?s)" by (simp add: iterates_def)
  from r have "ir = \<lparr>source_file = ?f, import_name = ?n, used_by = collect_used_by g ?f ?n\<rparr>"
    by simp
  with mem node out n
  show "ir \<in> set (find_implicit_reexports iter_names g (find_reexported_imports g (Some removed)))"
    unfolding find_implicit_reexports_set by blast
qed

subsection \<open>External usage\<close>

lemma external_importers_Nil: "external_importers [] m = {}"
  by (simp add: external_importers_def)

lemma external_importers_Cons:
  "external_importers (edge # es) m =
     (if is_external edge \<and> mod_name edge = m then insert (importer edge) (external_importers es m)
      else external_importers es m)"
  by (auto simp: external_importers_def)

lemma aggregate_loop_apply:
  "aggregate_loop es usage m =
     (if usage m = None \<and> external_importers es m = {} then None
      else Some (get_or_empty usage m \<union> external_importers es m))"
proof (induction es arbitrary: usage)
  case Nil
  then show ?case
    by (auto simp: external_importers_Nil get_or_empty_def split: option.splits)
next
  case (Cons edge es)
  show ?case
  proof (cases "is_external edge")
    case False
    then show ?thesis by (simp add: Cons.IH external_importers_Cons)
  next
    case True
    show ?thesis
    proof (cases "mod_name edge = m")
      case True
      with \<open>is_external edge\<close> show ?thesis
        by (simp add: Cons.IH external_importers_Cons)
    next
      case False
      with \<open>is_external edge\<close> show ?thesis
        by (simp add: Cons.IH external_importers_Cons dd_index_apply get_or_empty_def)
    qed
  qed
qed

section \<open>The claims\<close>

text \<open>
  C1. For every file \<open>f\<close>, \<open>unused_imports[f]\<close> of the result (no list for a missing key)
  is the list of the bindings that the single-file analysis flagged in \<open>f\<close> whose name is in
  the final removal set of \<open>f\<close>; and a name flagged in \<open>f\<close> is in the final removal set
  of \<open>f\<close> if and only if it is not re-exported from \<open>f\<close>, the re-exports being computed
  against the final removal map. The flagged bindings of \<open>f\<close> are those that
  \<open>find_unused_imports\<close> returns on the text of \<open>f\<close>, for a node \<open>f\<close> that can be read.
\<close>

theorem analyze_unused_exact:
  "get_or_nil (unused_imports (analyze iter_names read_text find_unused_imports find_cycles g)) f =
     filter (\<lambda>b. name b \<in> get_or_empty (final_removed read_text find_unused_imports g) f)
       (single_file_list read_text find_unused_imports g f) \<and>
   (\<forall>n \<in> name ` set (single_file_list read_text find_unused_imports g f).
      n \<in> get_or_empty (final_removed read_text find_unused_imports g) f \<longleftrightarrow>
      n \<notin> reexported_names_of g (final_removed read_text find_unused_imports g) f) \<and>
   single_file_list read_text find_unused_imports g f =
     (case read_text f of
        Inl err \<Rightarrow> []
      | Inr source \<Rightarrow> if f \<in> fst ` set (nodes g) then find_unused_imports source else [])"
proof (intro conjI ballI)
  show "get_or_nil (unused_imports (analyze iter_names read_text find_unused_imports find_cycles g)) f =
     filter (\<lambda>b. name b \<in> get_or_empty (final_removed read_text find_unused_imports g) f)
       (single_file_list read_text find_unused_imports g f)"
    by (simp add: analyze_def Let_def get_or_nil_build_unused_imports final_removed_def
        single_file_list_def)
next
  fix n
  assume "n \<in> name ` set (single_file_list read_text find_unused_imports g f)"
  then have "n \<in> flagged (get_single_file_unused read_text find_unused_imports g) f"
    by (simp add: single_file_list_def flagged_distinct get_single_file_unused_distinct)
  then show "n \<in> get_or_empty (final_removed read_text find_unused_imports g) f \<longleftrightarrow>
      n \<notin> reexported_names_of g (final_removed read_text find_unused_imports g) f"
    unfolding final_removed_def by (rule cascade_removed_iff)
next
  show "single_file_list read_text find_unused_imports g f =
     (case read_text f of
        Inl err \<Rightarrow> []
      | Inr source \<Rightarrow> if f \<in> fst ` set (nodes g) then find_unused_imports source else [])"
    by (simp add: single_file_list_def get_single_file_unused_map_of get_or_nil_def
        split: sum.splits)
qed

theorem analyze_unused_exact_witness:
  "''X'' \<in> name ` set (single_file_list plain_read_text ex_find_unused shared_graph ''c.py'') \<and>
   ''X'' \<in> get_or_empty (final_removed plain_read_text ex_find_unused shared_graph) ''c.py'' \<and>
   ''X'' \<notin> reexported_names_of shared_graph
              (final_removed plain_read_text ex_find_unused shared_graph) ''c.py'' \<and>
   ''X'' \<in> name ` set (single_file_list plain_read_text ex_find_unused shared_graph ''b.py'') \<and>
   ''X'' \<notin> get_or_empty (final_removed plain_read_text ex_find_unused shared_graph) ''b.py'' \<and>
   ''X'' \<in> reexported_names_of shared_graph
              (final_removed plain_read_text ex_find_unused shared_graph) ''b.py''"
proof -
  have hc: "''X'' \<in> name ` set (single_file_list plain_read_text ex_find_unused shared_graph ''c.py'')"
    by code_simp
  have hb: "''X'' \<in> name ` set (single_file_list plain_read_text ex_find_unused shared_graph ''b.py'')"
    by code_simp
  have rc: "''X'' \<in> get_or_empty (final_removed plain_read_text ex_find_unused shared_graph) ''c.py''"
    by code_simp
  have rb: "''X'' \<notin> get_or_empty (final_removed plain_read_text ex_find_unused shared_graph) ''b.py''"
    by code_simp
  show ?thesis
    using analyze_unused_exact [of iter_XY plain_read_text ex_find_unused no_cycles shared_graph "''c.py''"]
      analyze_unused_exact [of iter_XY plain_read_text ex_find_unused no_cycles shared_graph "''b.py''"]
      hc hb rc rb
    by blast
qed

text \<open>
  C2. For any removal map, the dict returned by \<open>_find_reexported_imports\<close> holds for
  each file \<open>f\<close> (the empty set for a missing key) exactly the names \<open>n\<close> for which some
  non-external edge into \<open>f\<close> exists, \<open>f\<close> being a node of the graph, with \<open>n\<close> among
  the edge's names, \<open>n\<close> not in the removal set of the edge's importer, \<open>n\<close> the name of
  an import binding of \<open>f\<close> and \<open>n\<close> not among the defined names of \<open>f\<close>. In
  particular a name that \<open>f\<close> defines is never re-exported from \<open>f\<close>. Without a removal
  map the result is that for the empty one.
\<close>

theorem find_reexported_imports_exact:
  "get_or_empty (map_of (find_reexported_imports g (Some removed))) f =
     {n. \<exists>edge \<in> set (edges g).
           \<not> is_external edge \<and> imported edge = Some f \<and> f \<in> fst ` set (nodes g) \<and>
           n \<in> names edge \<and> n \<notin> get_or_empty removed (importer edge) \<and>
           (\<exists>module_info. map_of (nodes g) f = Some module_info \<and>
              n \<in> name ` set (mod_imports module_info) \<and>
              n \<notin> defined_names module_info)} \<and>
   (\<forall>module_info n.
      map_of (nodes g) f = Some module_info \<and> n \<in> defined_names module_info \<longrightarrow>
      n \<notin> get_or_empty (map_of (find_reexported_imports g (Some removed))) f) \<and>
   find_reexported_imports g None = find_reexported_imports g (Some Map.empty)"
proof (intro conjI allI impI)
  have node: "\<And>module_info. map_of (nodes g) f = Some module_info \<Longrightarrow> f \<in> fst ` set (nodes g)"
    by (metis map_of_eq_None_iff option.distinct(1))
  show "get_or_empty (map_of (find_reexported_imports g (Some removed))) f =
     {n. \<exists>edge \<in> set (edges g).
           \<not> is_external edge \<and> imported edge = Some f \<and> f \<in> fst ` set (nodes g) \<and>
           n \<in> names edge \<and> n \<notin> get_or_empty removed (importer edge) \<and>
           (\<exists>module_info. map_of (nodes g) f = Some module_info \<and>
              n \<in> name ` set (mod_imports module_info) \<and>
              n \<notin> defined_names module_info)}"
    unfolding find_reexported_imports_get edge_reexports_def using node by blast
next
  fix module_info n
  assume "map_of (nodes g) f = Some module_info \<and> n \<in> defined_names module_info"
  then show "n \<notin> get_or_empty (map_of (find_reexported_imports g (Some removed))) f"
    unfolding find_reexported_imports_get edge_reexports_def by auto
next
  show "find_reexported_imports g None = find_reexported_imports g (Some Map.empty)"
    by (simp add: find_reexported_imports_def)
qed

theorem find_reexported_imports_exact_witness:
  "map_of (nodes shadow_graph) ''b.py'' =
     Some \<lparr>mod_imports = [imp_X ''lib''], defined_names = {''X''}, exports = {}\<rparr> \<and>
   ''X'' \<in> defined_names \<lparr>mod_imports = [imp_X ''lib''], defined_names = {''X''}, exports = {}\<rparr> \<and>
   ''X'' \<notin> get_or_empty (map_of (find_reexported_imports shadow_graph (Some Map.empty))) ''b.py''"
proof -
  have node: "map_of (nodes shadow_graph) ''b.py'' =
     Some \<lparr>mod_imports = [imp_X ''lib''], defined_names = {''X''}, exports = {}\<rparr>"
    by (simp add: shadow_graph_def)
  have defd: "''X'' \<in> defined_names \<lparr>mod_imports = [imp_X ''lib''], defined_names = {''X''}, exports = {}\<rparr>"
    by simp
  show ?thesis
    using find_reexported_imports_exact [of shadow_graph Map.empty "''b.py''"] node defd
    by blast
qed

text \<open>
  C3, as the code has it. When the iteration order visits each re-exported set, the
  result holds an implicit re-export of the name \<open>n\<close> from the file \<open>f\<close> if and only if
  \<open>n\<close> is re-exported from \<open>f\<close> under the final removal map and \<open>f\<close> is a node whose
  \<open>exports\<close> (the names in \<open>__all__\<close>) do not hold \<open>n\<close>. Whether \<open>f\<close> has an \<open>__all__\<close>
  is not tested: when no name is listed in \<open>__all__\<close>, as in a file with no \<open>__all__\<close> at
  all, every name re-exported from \<open>f\<close> is surfaced.
\<close>

theorem implicit_reexports_exact:
  assumes "\<forall>(f, s) \<in> set (find_reexported_imports g
              (Some (final_removed read_text find_unused_imports g))). iterates iter_names s"
  shows "((\<exists>ir \<in> set (implicit_reexports
                  (analyze iter_names read_text find_unused_imports find_cycles g)).
             source_file ir = f \<and> import_name ir = n) \<longleftrightarrow>
            n \<in> reexported_names_of g (final_removed read_text find_unused_imports g) f \<and>
            (\<exists>module_info. map_of (nodes g) f = Some module_info \<and>
               n \<notin> exports module_info)) \<and>
         (\<forall>module_info.
            map_of (nodes g) f = Some module_info \<and> exports module_info = {} \<and>
            n \<in> reexported_names_of g (final_removed read_text find_unused_imports g) f \<longrightarrow>
            (\<exists>ir \<in> set (implicit_reexports
                  (analyze iter_names read_text find_unused_imports find_cycles g)).
               source_file ir = f \<and> import_name ir = n))"
proof -
  have ir: "implicit_reexports (analyze iter_names read_text find_unused_imports find_cycles g) =
      find_implicit_reexports iter_names g
        (find_reexported_imports g (Some (final_removed read_text find_unused_imports g)))"
    by (simp add: analyze_def Let_def final_removed_def)
  note iff = implicit_reexports_iff [OF assms, folded ir]
  have main: "(\<exists>ir \<in> set (implicit_reexports
                  (analyze iter_names read_text find_unused_imports find_cycles g)).
             source_file ir = f \<and> import_name ir = n) \<longleftrightarrow>
            n \<in> reexported_names_of g (final_removed read_text find_unused_imports g) f \<and>
            (\<exists>module_info. map_of (nodes g) f = Some module_info \<and>
               n \<notin> exports module_info)"
  proof
    assume "\<exists>ir \<in> set (implicit_reexports
                  (analyze iter_names read_text find_unused_imports find_cycles g)).
             source_file ir = f \<and> import_name ir = n"
    then obtain ir where "ir \<in> set (implicit_reexports
                  (analyze iter_names read_text find_unused_imports find_cycles g))"
      and "source_file ir = f" "import_name ir = n"
      by blast
    with iff [of ir]
    show "n \<in> reexported_names_of g (final_removed read_text find_unused_imports g) f \<and>
            (\<exists>module_info. map_of (nodes g) f = Some module_info \<and>
               n \<notin> exports module_info)"
      by simp
  next
    assume r: "n \<in> reexported_names_of g (final_removed read_text find_unused_imports g) f \<and>
            (\<exists>module_info. map_of (nodes g) f = Some module_info \<and>
               n \<notin> exports module_info)"
    let ?ir = "\<lparr>source_file = f, import_name = n, used_by = collect_used_by g f n\<rparr>"
    from r iff [of ?ir] have "?ir \<in> set (implicit_reexports
                  (analyze iter_names read_text find_unused_imports find_cycles g))"
      by simp
    moreover have "source_file ?ir = f \<and> import_name ?ir = n" by simp
    ultimately show "\<exists>ir \<in> set (implicit_reexports
                  (analyze iter_names read_text find_unused_imports find_cycles g)).
             source_file ir = f \<and> import_name ir = n"
      by blast
  qed
  show ?thesis
  proof (intro conjI allI impI)
    show "(\<exists>ir \<in> set (implicit_reexports
                  (analyze iter_names read_text find_unused_imports find_cycles g)).
             source_file ir = f \<and> import_name ir = n) \<longleftrightarrow>
            n \<in> reexported_names_of g (final_removed read_text find_unused_imports g) f \<and>
            (\<exists>module_info. map_of (nodes g) f = Some module_info \<and>
               n \<notin> exports module_info)"
      by (rule main)
  next
    fix module_info
    assume "map_of (nodes g) f = Some module_info \<and> exports module_info = {} \<and>
            n \<in> reexported_names_of g (final_removed read_text find_unused_imports g) f"
    then show "\<exists>ir \<in> set (implicit_reexports
                  (analyze iter_names read_text find_unused_imports find_cycles g)).
               source_file ir = f \<and> import_name ir = n"
      unfolding main by auto
  qed
qed

theorem implicit_reexports_exact_witness:
  "find_reexported_imports reexport_graph
     (Some (final_removed plain_read_text ex_find_unused reexport_graph)) = [(''b.py'', {''X''})] \<and>
   iterates iter_XY {''X''} \<and>
   map_of (nodes reexport_graph) ''b.py'' =
     Some \<lparr>mod_imports = [imp_X ''lib''], defined_names = {}, exports = {}\<rparr> \<and>
   ''X'' \<in> reexported_names_of reexport_graph
             (final_removed plain_read_text ex_find_unused reexport_graph) ''b.py'' \<and>
   source_file (hd (implicit_reexports
      (analyze iter_XY plain_read_text ex_find_unused no_cycles reexport_graph))) = ''b.py'' \<and>
   import_name (hd (implicit_reexports
      (analyze iter_XY plain_read_text ex_find_unused no_cycles reexport_graph))) = ''X''"
proof -
  have reex: "find_reexported_imports reexport_graph
     (Some (final_removed plain_read_text ex_find_unused reexport_graph)) = [(''b.py'', {''X''})]"
    by code_simp
  have it: "iterates iter_XY {''X''}"
    by (simp add: iterates_def iter_XY_def)
  have h: "\<forall>(f, s) \<in> set (find_reexported_imports reexport_graph
              (Some (final_removed plain_read_text ex_find_unused reexport_graph))). iterates iter_XY s"
    by (simp add: reex it)
  have node: "map_of (nodes reexport_graph) ''b.py'' =
     Some \<lparr>mod_imports = [imp_X ''lib''], defined_names = {}, exports = {}\<rparr>"
    by (simp add: reexport_graph_def)
  have x: "''X'' \<in> reexported_names_of reexport_graph
             (final_removed plain_read_text ex_find_unused reexport_graph) ''b.py''"
    by (simp add: reexported_names_of_def reex get_or_empty_def)
  have single: "length (implicit_reexports
      (analyze iter_XY plain_read_text ex_find_unused no_cycles reexport_graph)) = 1"
    by code_simp
  have "\<exists>ir \<in> set (implicit_reexports
      (analyze iter_XY plain_read_text ex_find_unused no_cycles reexport_graph)).
      source_file ir = ''b.py'' \<and> import_name ir = ''X''"
    using implicit_reexports_exact [OF h, where f = "''b.py''" and n = "''X''"
        and find_cycles = no_cycles] node x
    by simp
  moreover from single have "set (implicit_reexports
      (analyze iter_XY plain_read_text ex_find_unused no_cycles reexport_graph)) =
      {hd (implicit_reexports
      (analyze iter_XY plain_read_text ex_find_unused no_cycles reexport_graph))}"
    by (cases "implicit_reexports
      (analyze iter_XY plain_read_text ex_find_unused no_cycles reexport_graph)") auto
  ultimately have "source_file (hd (implicit_reexports
      (analyze iter_XY plain_read_text ex_find_unused no_cycles reexport_graph))) = ''b.py'' \<and>
   import_name (hd (implicit_reexports
      (analyze iter_XY plain_read_text ex_find_unused no_cycles reexport_graph))) = ''X''"
    by simp
  with reex it node x show ?thesis by simp
qed

text \<open>
  C3 as stated fails: \<open>b.py\<close> has no \<open>__all__\<close> (its text is a single import, and no
  name is in its \<open>exports\<close>), and the name \<open>X\<close> that it re-exports to \<open>a.py\<close> is
  surfaced as an implicit re-export.
\<close>

theorem implicit_reexport_without_all:
  "plain_read_text ''b.py'' = Inr ''from lib import X'' \<and>
   map_of (nodes reexport_graph) ''b.py'' =
     Some \<lparr>mod_imports = [imp_X ''lib''], defined_names = {}, exports = {}\<rparr> \<and>
   implicit_reexports (analyze iter_XY plain_read_text ex_find_unused no_cycles reexport_graph) =
     [\<lparr>source_file = ''b.py'', import_name = ''X'', used_by = {''a.py''}\<rparr>]"
  by code_simp

text \<open>
  C4, the code at a failing input. \<open>c.py\<close> imports \<open>X\<close> from \<open>b.py\<close> without using it, so
  \<open>X\<close> ends in the removal set of \<open>c.py\<close>; yet \<open>c.py\<close> is listed in \<open>used_by\<close> of the
  implicit re-export of \<open>X\<close> from \<open>b.py\<close>, next to \<open>a.py\<close>, which does use it.
\<close>

theorem used_by_lists_non_user:
  "implicit_reexports (analyze iter_XY all_read_text ex_find_unused no_cycles shared_graph) =
     [\<lparr>source_file = ''b.py'', import_name = ''X'', used_by = {''a.py'', ''c.py''}\<rparr>] \<and>
   ''X'' \<in> get_or_empty (final_removed all_read_text ex_find_unused shared_graph) ''c.py'' \<and>
   ''X'' \<notin> get_or_empty (final_removed all_read_text ex_find_unused shared_graph) ''a.py''"
  by code_simp

text \<open>
  C5 (monotone cascade). For every file \<open>f\<close>, the removal set after iteration \<open>k + 1\<close> of
  the fixed-point loop contains the removal set after iteration \<open>k\<close>; more generally one
  pass of the loop body, from any removal map, only adds names.
\<close>

theorem cascade_monotone:
  "get_or_empty (removed_after g single_file_unused k) f
     \<subseteq> get_or_empty (removed_after g single_file_unused (Suc k)) f \<and>
   get_or_empty all_removed f
     \<subseteq> get_or_empty (fst (cascade_step g single_file_unused all_removed)) f"
  by (simp add: cascade_step_get)

theorem cascade_monotone_witness:
  "get_or_empty (removed_after shared_graph
       (get_single_file_unused plain_read_text ex_find_unused shared_graph) 0) ''c.py'' = {} \<and>
   get_or_empty (removed_after shared_graph
       (get_single_file_unused plain_read_text ex_find_unused shared_graph) (Suc 0)) ''c.py''
     = {''X''} \<and>
   get_or_empty (removed_after shared_graph
       (get_single_file_unused plain_read_text ex_find_unused shared_graph) 0) ''c.py''
     \<subseteq> get_or_empty (removed_after shared_graph
         (get_single_file_unused plain_read_text ex_find_unused shared_graph) (Suc 0)) ''c.py''"
proof -
  have before: "get_or_empty (removed_after shared_graph
       (get_single_file_unused plain_read_text ex_find_unused shared_graph) 0) ''c.py'' = {}"
    by simp
  have after: "get_or_empty (removed_after shared_graph
       (get_single_file_unused plain_read_text ex_find_unused shared_graph) (Suc 0)) ''c.py''
     = {''X''}"
    by code_simp
  show ?thesis
    using cascade_monotone [of shared_graph
        "get_single_file_unused plain_read_text ex_find_unused shared_graph" 0 "''c.py''"]
      before after
    by blast
qed

text \<open>
  C6. The \<open>while\<close> loop of \<open>analyze\<close> terminates on every graph: on every iteration that
  sets \<open>changed\<close> the total size of the removal map strictly increases; that size never
  exceeds the total number of bindings flagged by the single-file analysis; so some
  iteration, no later than the one numbered by that total (counting from \<open>0\<close>), leaves
  \<open>changed\<close> unset, and the loop ends there with the removal map of that iteration.
\<close>

theorem cascade_terminates:
  "(\<forall>k. snd (cascade_step g single_file_unused (removed_after g single_file_unused k)) \<longrightarrow>
        removal_size (removed_after g single_file_unused k)
          < removal_size (removed_after g single_file_unused (Suc k))) \<and>
   (\<forall>k. removal_size (removed_after g single_file_unused k) \<le> total_unused single_file_unused) \<and>
   (\<exists>k \<le> total_unused single_file_unused.
      \<not> snd (cascade_step g single_file_unused (removed_after g single_file_unused k)) \<and>
      cascade g single_file_unused Map.empty = removed_after g single_file_unused (Suc k))"
  using removed_after_increases [of g single_file_unused]
    removed_after_bound [of g single_file_unused] cascade_exit [of single_file_unused g]
  by blast

theorem cascade_terminates_witness:
  "snd (cascade_step shared_graph
          (get_single_file_unused plain_read_text ex_find_unused shared_graph)
          (removed_after shared_graph
             (get_single_file_unused plain_read_text ex_find_unused shared_graph) 0)) \<and>
   removal_size (removed_after shared_graph
       (get_single_file_unused plain_read_text ex_find_unused shared_graph) 0)
     < removal_size (removed_after shared_graph
         (get_single_file_unused plain_read_text ex_find_unused shared_graph) (Suc 0)) \<and>
   removal_size (removed_after shared_graph
       (get_single_file_unused plain_read_text ex_find_unused shared_graph) (Suc 0))
     \<le> total_unused (get_single_file_unused plain_read_text ex_find_unused shared_graph) \<and>
   total_unused (get_single_file_unused plain_read_text ex_find_unused shared_graph) = 2 \<and>
   \<not> snd (cascade_step shared_graph
          (get_single_file_unused plain_read_text ex_find_unused shared_graph)
          (removed_after shared_graph
             (get_single_file_unused plain_read_text ex_find_unused shared_graph) (Suc 0)))"
proof -
  have first: "snd (cascade_step shared_graph
          (get_single_file_unused plain_read_text ex_find_unused shared_graph)
          (removed_after shared_graph
             (get_single_file_unused plain_read_text ex_find_unused shared_graph) 0))"
    by code_simp
  have second: "\<not> snd (cascade_step shared_graph
          (get_single_file_unused plain_read_text ex_find_unused shared_graph)
          (removed_after shared_graph
             (get_single_file_unused plain_read_text ex_find_unused shared_graph) (Suc 0)))"
    by code_simp
  have total: "total_unused (get_single_file_unused plain_read_text ex_find_unused shared_graph) = 2"
    by code_simp
  show ?thesis
    using cascade_terminates [of shared_graph
        "get_single_file_unused plain_read_text ex_find_unused shared_graph"]
      first second total
    by blast
qed



text \<open>
  C8. \<open>external_usage\<close> of the result maps a module name \<open>m\<close> to a set \<open>s\<close> of files if and
  only if \<open>s\<close> is not empty and is the set of the importers of the edges marked external
  whose module name is \<open>m\<close>; a module name carried only by edges that are not marked
  external is no key of the map.
\<close>

theorem external_usage_exact:
  "(external_usage (analyze iter_names read_text find_unused_imports find_cycles g) m = Some s \<longleftrightarrow>
      s \<noteq> {} \<and>
      s = {importer edge | edge. edge \<in> set (edges g) \<and> is_external edge \<and> mod_name edge = m}) \<and>
   ((\<forall>edge \<in> set (edges g). mod_name edge = m \<longrightarrow> \<not> is_external edge) \<longrightarrow>
      external_usage (analyze iter_names read_text find_unused_imports find_cycles g) m = None)"
proof -
  have eu: "external_usage (analyze iter_names read_text find_unused_imports find_cycles g) m =
      (if external_importers (edges g) m = {} then None
       else Some (external_importers (edges g) m))"
    by (simp add: analyze_def Let_def aggregate_external_usage_def aggregate_loop_apply)
  have ei: "external_importers (edges g) m =
      {importer edge | edge. edge \<in> set (edges g) \<and> is_external edge \<and> mod_name edge = m}"
    by (simp add: external_importers_def)
  show ?thesis
  proof (intro conjI impI)
    show "external_usage (analyze iter_names read_text find_unused_imports find_cycles g) m = Some s \<longleftrightarrow>
      s \<noteq> {} \<and>
      s = {importer edge | edge. edge \<in> set (edges g) \<and> is_external edge \<and> mod_name edge = m}"
      unfolding eu ei [symmetric] by auto
  next
    assume "\<forall>edge \<in> set (edges g). mod_name edge = m \<longrightarrow> \<not> is_external edge"
    then have "external_importers (edges g) m = {}"
      by (auto simp: external_importers_def)
    then show "external_usage (analyze iter_names read_text find_unused_imports find_cycles g) m = None"
      by (simp add: eu)
  qed
qed

theorem external_usage_exact_witness:
  "external_usage (analyze iter_XY plain_read_text ex_find_unused no_cycles shared_graph) ''lib''
     = Some {''b.py''} \<and>
   {''b.py''} = {importer edge | edge.
        edge \<in> set (edges shared_graph) \<and> is_external edge \<and> mod_name edge = ''lib''} \<and>
   filter (\<lambda>edge. mod_name edge = ''b'' \<and> is_external edge) (edges shared_graph) = [] \<and>
   external_usage (analyze iter_XY plain_read_text ex_find_unused no_cycles shared_graph) ''b''
     = None"
proof -
  have lib: "external_usage (analyze iter_XY plain_read_text ex_find_unused no_cycles shared_graph) ''lib''
     = Some {''b.py''}"
    by code_simp
  have internal: "\<forall>edge \<in> set (edges shared_graph). mod_name edge = ''b'' \<longrightarrow> \<not> is_external edge"
    by (simp add: shared_graph_def)
  have none_external:
    "filter (\<lambda>edge. mod_name edge = ''b'' \<and> is_external edge) (edges shared_graph) = []"
    by (simp add: shared_graph_def)
  show ?thesis
    using external_usage_exact [where g = shared_graph and iter_names = iter_XY
        and read_text = plain_read_text and find_unused_imports = ex_find_unused
        and find_cycles = no_cycles and m = "''lib''" and s = "{''b.py''}"]
      external_usage_exact [where g = shared_graph and iter_names = iter_XY
        and read_text = plain_read_text and find_unused_imports = ex_find_unused
        and find_cycles = no_cycles and m = "''b''" and s = "{}"]
      lib internal none_external
    by meson
qed

text \<open>
  C9, as the code has it. Two runs on the same graph, files and single-file analysis, with
  any two iteration orders that visit each re-exported set, give the same \<open>unused_imports\<close>,
  \<open>external_usage\<close> and \<open>circular_imports\<close>, and the same implicit re-exports up to the
  order of the list (\<open>find_cycles\<close> being a function of the graph).
\<close>

theorem analyze_order_independent:
  assumes "\<forall>(f, s) \<in> set (find_reexported_imports g
              (Some (final_removed read_text find_unused_imports g))).
              iterates iter1 s \<and> iterates iter2 s"
  shows "unused_imports (analyze iter1 read_text find_unused_imports find_cycles g) =
         unused_imports (analyze iter2 read_text find_unused_imports find_cycles g) \<and>
         external_usage (analyze iter1 read_text find_unused_imports find_cycles g) =
         external_usage (analyze iter2 read_text find_unused_imports find_cycles g) \<and>
         circular_imports (analyze iter1 read_text find_unused_imports find_cycles g) =
         circular_imports (analyze iter2 read_text find_unused_imports find_cycles g) \<and>
         mset (implicit_reexports (analyze iter1 read_text find_unused_imports find_cycles g)) =
         mset (implicit_reexports (analyze iter2 read_text find_unused_imports find_cycles g))"
proof -
  have "mset (find_implicit_reexports iter1 g
          (find_reexported_imports g (Some (final_removed read_text find_unused_imports g)))) =
        mset (find_implicit_reexports iter2 g
          (find_reexported_imports g (Some (final_removed read_text find_unused_imports g))))"
    using assms by (intro find_implicit_reexports_mset) blast
  then show ?thesis
    by (simp add: analyze_def Let_def final_removed_def)
qed

theorem analyze_order_independent_witness:
  "find_reexported_imports two_names_graph
     (Some (final_removed two_names_read_text two_names_find_unused two_names_graph)) =
     [(''b.py'', {''X'', ''Y''})] \<and>
   iterates iter_XY {''X'', ''Y''} \<and> iterates iter_YX {''X'', ''Y''} \<and>
   mset (implicit_reexports
           (analyze iter_XY two_names_read_text two_names_find_unused no_cycles two_names_graph)) =
   mset (implicit_reexports
           (analyze iter_YX two_names_read_text two_names_find_unused no_cycles two_names_graph))"
proof -
  have reex: "find_reexported_imports two_names_graph
     (Some (final_removed two_names_read_text two_names_find_unused two_names_graph)) =
     [(''b.py'', {''X'', ''Y''})]"
    by code_simp
  have it: "iterates iter_XY {''X'', ''Y''}" "iterates iter_YX {''X'', ''Y''}"
    by (auto simp: iterates_def iter_XY_def iter_YX_def)
  have h: "\<forall>(f, s) \<in> set (find_reexported_imports two_names_graph
              (Some (final_removed two_names_read_text two_names_find_unused two_names_graph))).
              iterates iter_XY s \<and> iterates iter_YX s"
    by (simp add: reex it)
  show ?thesis
    using analyze_order_independent [OF h, where find_cycles = no_cycles] reex it
    by simp
qed

text \<open>
  C9 as stated fails: with two iteration orders of the set \<open>{X, Y}\<close>, the two runs return
  the implicit re-exports of \<open>b.py\<close> in two different orders, so the results differ.
\<close>

theorem analyze_order_dependent:
  "iterates iter_XY {''X'', ''Y''} \<and> iterates iter_YX {''X'', ''Y''} \<and>
   implicit_reexports
     (analyze iter_XY two_names_read_text two_names_find_unused no_cycles two_names_graph) =
     [\<lparr>source_file = ''b.py'', import_name = ''X'', used_by = {''a.py''}\<rparr>,
      \<lparr>source_file = ''b.py'', import_name = ''Y'', used_by = {''a.py''}\<rparr>] \<and>
   implicit_reexports
     (analyze iter_YX two_names_read_text two_names_find_unused no_cycles two_names_graph) =
     [\<lparr>source_file = ''b.py'', import_name = ''Y'', used_by = {''a.py''}\<rparr>,
      \<lparr>source_file = ''b.py'', import_name = ''X'', used_by = {''a.py''}\<rparr>] \<and>
   analyze iter_XY two_names_read_text two_names_find_unused no_cycles two_names_graph \<noteq>
   analyze iter_YX two_names_read_text two_names_find_unused no_cycles two_names_graph"
proof -
  have it: "iterates iter_XY {''X'', ''Y''}" "iterates iter_YX {''X'', ''Y''}"
    by (auto simp: iterates_def iter_XY_def iter_YX_def)
  have xy: "implicit_reexports
     (analyze iter_XY two_names_read_text two_names_find_unused no_cycles two_names_graph) =
     [\<lparr>source_file = ''b.py'', import_name = ''X'', used_by = {''a.py''}\<rparr>,
      \<lparr>source_file = ''b.py'', import_name = ''Y'', used_by = {''a.py''}\<rparr>]"
    by code_simp
  have yx: "implicit_reexports
     (analyze iter_YX two_names_read_text two_names_find_unused no_cycles two_names_graph) =
     [\<lparr>source_file = ''b.py'', import_name = ''Y'', used_by = {''a.py''}\<rparr>,
      \<lparr>source_file = ''b.py'', import_name = ''X'', used_by = {''a.py''}\<rparr>]"
    by code_simp
  have "analyze iter_XY two_names_read_text two_names_find_unused no_cycles two_names_graph \<noteq>
   analyze iter_YX two_names_read_text two_names_find_unused no_cycles two_names_graph"
  proof
    assume "analyze iter_XY two_names_read_text two_names_find_unused no_cycles two_names_graph =
      analyze iter_YX two_names_read_text two_names_find_unused no_cycles two_names_graph"
    then have "implicit_reexports
        (analyze iter_XY two_names_read_text two_names_find_unused no_cycles two_names_graph) =
      implicit_reexports
        (analyze iter_YX two_names_read_text two_names_find_unused no_cycles two_names_graph)"
      by simp
    then show False unfolding xy yx by simp
  qed
  with it xy yx show ?thesis by simp
qed

text \<open>
  C10. Every list stored in \<open>unused_imports\<close> of the result is non-empty and is a
  subsequence, in the same order, of the list that the single-file analysis holds for that
  file; a file none of whose flagged bindings has its name in the final removal set has no
  key in the map.
\<close>

theorem unused_imports_nonempty_subseq:
  "(\<forall>l. unused_imports (analyze iter_names read_text find_unused_imports find_cycles g) f = Some l
        \<longrightarrow> l \<noteq> [] \<and> subseq l (single_file_list read_text find_unused_imports g f)) \<and>
   ((\<forall>b \<in> set (single_file_list read_text find_unused_imports g f).
        name b \<notin> get_or_empty (final_removed read_text find_unused_imports g) f)
      \<longrightarrow> unused_imports (analyze iter_names read_text find_unused_imports find_cycles g) f = None)"
proof -
  let ?su = "get_single_file_unused read_text find_unused_imports g"
  let ?ar = "final_removed read_text find_unused_imports g"
  have ui: "unused_imports (analyze iter_names read_text find_unused_imports find_cycles g) =
      build_unused_imports ?su ?ar"
    by (simp add: analyze_def Let_def final_removed_def)
  have some: "\<And>l. build_unused_imports ?su ?ar f = Some l \<Longrightarrow>
      l \<noteq> [] \<and> l = filter (\<lambda>imp. name imp \<in> get_or_empty ?ar f) (get_or_nil (map_of ?su) f)"
    by (auto simp: build_unused_imports_def Let_def get_or_empty_def
        split: option.splits if_splits)
  have none: "filter (\<lambda>imp. name imp \<in> get_or_empty ?ar f) (get_or_nil (map_of ?su) f) = [] \<Longrightarrow>
      build_unused_imports ?su ?ar f = None"
    by (auto simp: build_unused_imports_def Let_def get_or_empty_def split: option.splits)
  show ?thesis
  proof (intro conjI allI impI)
    fix l
    assume "unused_imports (analyze iter_names read_text find_unused_imports find_cycles g) f = Some l"
    with ui some have "l \<noteq> []"
      and l: "l = filter (\<lambda>imp. name imp \<in> get_or_empty ?ar f) (get_or_nil (map_of ?su) f)"
      by auto
    then show "l \<noteq> []" by simp
    show "subseq l (single_file_list read_text find_unused_imports g f)"
      unfolding single_file_list_def by (subst l) (rule subseq_filter_left)
  next
    assume "\<forall>b \<in> set (single_file_list read_text find_unused_imports g f).
        name b \<notin> get_or_empty ?ar f"
    then have "filter (\<lambda>imp. name imp \<in> get_or_empty ?ar f) (get_or_nil (map_of ?su) f) = []"
      by (simp add: single_file_list_def filter_empty_conv)
    with ui none
    show "unused_imports (analyze iter_names read_text find_unused_imports find_cycles g) f = None"
      by simp
  qed
qed

theorem unused_imports_nonempty_subseq_witness:
  "unused_imports (analyze iter_XY plain_read_text ex_find_unused no_cycles shared_graph) ''c.py''
     = Some [imp_X ''b''] \<and>
   [imp_X ''b''] \<noteq> [] \<and>
   subseq [imp_X ''b''] (single_file_list plain_read_text ex_find_unused shared_graph ''c.py'') \<and>
   single_file_list plain_read_text ex_find_unused shared_graph ''b.py'' = [imp_X ''lib''] \<and>
   name (imp_X ''lib'') \<notin> get_or_empty (final_removed plain_read_text ex_find_unused shared_graph) ''b.py'' \<and>
   unused_imports (analyze iter_XY plain_read_text ex_find_unused no_cycles shared_graph) ''b.py''
     = None"
proof -
  have c: "unused_imports (analyze iter_XY plain_read_text ex_find_unused no_cycles shared_graph) ''c.py''
     = Some [imp_X ''b'']"
    by code_simp
  have l: "single_file_list plain_read_text ex_find_unused shared_graph ''b.py'' = [imp_X ''lib'']"
    by code_simp
  have r: "name (imp_X ''lib'') \<notin> get_or_empty (final_removed plain_read_text ex_find_unused shared_graph) ''b.py''"
    by code_simp
  from l r have h: "\<forall>b \<in> set (single_file_list plain_read_text ex_find_unused shared_graph ''b.py'').
      name b \<notin> get_or_empty (final_removed plain_read_text ex_find_unused shared_graph) ''b.py''"
    by simp
  show ?thesis
    using unused_imports_nonempty_subseq
        [of iter_XY plain_read_text ex_find_unused no_cycles shared_graph "''c.py''"]
      unused_imports_nonempty_subseq
        [of iter_XY plain_read_text ex_find_unused no_cycles shared_graph "''b.py''"]
      c l r h
    by blast
qed

end
